theory Spec2Isabelle
  imports
    Complex_Main
    "HOL-Library.Char_ord"
    "HOL-Library.List_Lexorder"
    "HOL-Library.Multiset"
    "HOL-Library.Sublist"
begin

section \<open>Values\<close>

text \<open>
  A Python float is a finite number or one of the three non-finite values. Finite
  arithmetic is taken exact (a real number): rounding, the sign of zero and overflow
  of a finite sum to infinity are left out of the model.
\<close>

datatype pyfloat = Fin real | NaN | PInf | NInf

text \<open>
  The scalar values \<open>json.load\<close> produces: \<open>None\<close>, a \<open>bool\<close>, an unbounded
  \<open>int\<close>, a \<open>float\<close> (the literals \<open>NaN\<close>, \<open>Infinity\<close> and \<open>-Infinity\<close>
  are accepted) and a \<open>str\<close>. Strings are byte strings; the string operations below
  act on the ASCII range and leave the other bytes alone.
\<close>

datatype json = JNull | JBool bool | JInt int | JNum pyfloat | JStr string

datatype error =
  FileNotFoundError | JSONDecodeError | ValueError | OverflowError | KeyError | AttributeError |
  ZeroDivisionError

text \<open>A \<open>dict\<close> keeps insertion order: an association list with distinct keys.\<close>

type_synonym 'v dict = "(string \<times> 'v) list"

definition dict_set :: "'v dict \<Rightarrow> string \<Rightarrow> 'v \<Rightarrow> 'v dict" where
  "dict_set d k v =
     (if k \<in> fst ` set d then map (\<lambda>(k', v'). if k' = k then (k', v) else (k', v')) d
      else d @ [(k, v)])"

definition dict_has :: "'v dict \<Rightarrow> string \<Rightarrow> bool" where
  "dict_has d k = (map_of d k \<noteq> None)"

text \<open>\<open>d[k]\<close> on a \<open>defaultdict\<close> whose factory returns \<open>z\<close>. The entry such a read
  adds for a missing key holds \<open>z\<close>, which is what every later read of it returns; the only
  \<open>defaultdict\<close> read without a write below, \<open>counts\<close>, is never iterated nor tested
  for membership, so the added entry is not modelled.\<close>

definition dd_get :: "'v dict \<Rightarrow> string \<Rightarrow> 'v \<Rightarrow> 'v" where
  "dd_get d k z = (case map_of d k of Some v \<Rightarrow> v | None \<Rightarrow> z)"

section \<open>Price table and cost estimate\<close>

text \<open>\<open>prices.py\<close>: USD per 1,000,000 tokens, (input, output), in the order of the
  dictionary literal.\<close>

definition PRICES :: "(real \<times> real) dict" where
  "PRICES =
   [(''grok-3-fast'', (3 / 10, 5 / 10)),
    (''gpt-5'', (125 / 100, 10)),
    (''gpt-5-mini'', (25 / 100, 2)),
    (''gpt-5-nano'', (5 / 100, 40 / 100)),
    (''gpt-5-chat-latest'', (125 / 100, 10)),
    (''gpt-5-codex'', (125 / 100, 10)),
    (''gpt-5-pro'', (15, 120)),
    (''gpt-4.1'', (2, 8)),
    (''gpt-4.1-mini'', (40 / 100, 160 / 100)),
    (''gpt-4.1-nano'', (10 / 100, 40 / 100)),
    (''gpt-4o'', (250 / 100, 10)),
    (''gpt-4o-2024-05-13'', (5, 15)),
    (''gpt-4o-mini'', (15 / 100, 60 / 100)),
    (''gpt-realtime'', (4, 16)),
    (''gpt-realtime-mini'', (60 / 100, 240 / 100)),
    (''gpt-4o-realtime-preview'', (5, 20)),
    (''gpt-4o-mini-realtime-preview'', (60 / 100, 240 / 100)),
    (''gpt-audio'', (250 / 100, 10)),
    (''gpt-audio-mini'', (60 / 100, 240 / 100)),
    (''gpt-4o-audio-preview'', (250 / 100, 10)),
    (''gpt-4o-mini-audio-preview'', (15 / 100, 60 / 100)),
    (''o1'', (15, 60)),
    (''o1-pro'', (150, 600)),
    (''o3-pro'', (20, 80)),
    (''o3'', (2, 8)),
    (''o3-deep-research'', (10, 40)),
    (''o4-mini'', (110 / 100, 440 / 100)),
    (''o4-mini-deep-research'', (2, 8)),
    (''o3-mini'', (110 / 100, 440 / 100)),
    (''o1-mini'', (110 / 100, 440 / 100)),
    (''codex-mini-latest'', (150 / 100, 6)),
    (''gpt-5-search-api'', (125 / 100, 10)),
    (''gpt-4o-mini-search-preview'', (15 / 100, 60 / 100)),
    (''gpt-4o-search-preview'', (250 / 100, 10)),
    (''computer-use-preview'', (3, 12)),
    (''gpt-image-1'', (5, 0)),
    (''gpt-image-1-mini'', (2, 0))]"

definition price_keys :: "string list" where
  "price_keys = map fst PRICES"

text \<open>\<open>str.strip()\<close> removes the characters for which \<open>str.isspace\<close> holds; in ASCII
  these are 9 to 13, 28 to 31 and the space.\<close>

definition is_space :: "char \<Rightarrow> bool" where
  "is_space c = (let n = (of_char c :: nat) in (9 \<le> n \<and> n \<le> 13) \<or> (28 \<le> n \<and> n \<le> 32))"

definition strip :: "string \<Rightarrow> string" where
  "strip s = rev (dropWhile is_space (rev (dropWhile is_space s)))"

definition lower_char :: "char \<Rightarrow> char" where
  "lower_char c =
     (let n = (of_char c :: nat) in if 65 \<le> n \<and> n \<le> 90 then char_of (n + 32) else c)"

definition lower :: "string \<Rightarrow> string" where
  "lower s = map lower_char s"

text \<open>\<open>s.split(c)\<close> for a one-character separator: the segments between the
  separators, never an empty list.\<close>

fun split :: "char \<Rightarrow> string \<Rightarrow> string list" where
  "split c [] = [[]]"
| "split c (x # xs) =
     (if x = c then [] # split c xs
      else (case split c xs of seg # segs \<Rightarrow> (x # seg) # segs | [] \<Rightarrow> [[x]]))"

text \<open>\<open>k in s\<close> on strings: \<open>k\<close> occurs in \<open>s\<close> as a contiguous substring.\<close>

fun contains :: "string \<Rightarrow> string \<Rightarrow> bool" where
  "contains [] k = (k = [])"
| "contains (c # cs) k = (prefix k (c # cs) \<or> contains cs k)"

text \<open>The loop \<open>for key in PRICES: if key in normalized: return key\<close>, falling through
  to \<open>return ""\<close>.\<close>

fun scan_keys :: "string list \<Rightarrow> string \<Rightarrow> string" where
  "scan_keys [] normalized = []"
| "scan_keys (key # keys) normalized =
     (if contains normalized key then key else scan_keys keys normalized)"

definition normalize_model_key :: "string \<Rightarrow> string" where
  "normalize_model_key model =
     (if model = [] then []
      else let normalized = lower (strip model) in
        if dict_has PRICES normalized then normalized
        else let tail = last (split CHR ''/'' (last (split CHR ''.'' normalized))) in
          if dict_has PRICES tail then tail
          else scan_keys price_keys normalized)"

text \<open>Float arithmetic with the non-finite values; finite operands compute exactly.\<close>

definition truthy :: "pyfloat \<Rightarrow> bool" where
  "truthy x = (x \<noteq> Fin 0)"

definition or_zero :: "pyfloat \<Rightarrow> pyfloat" where
  "or_zero x = (if truthy x then x else Fin 0)"

fun fsign :: "pyfloat \<Rightarrow> real" where
  "fsign (Fin a) = a"
| "fsign PInf = 1"
| "fsign NInf = - 1"
| "fsign NaN = 0"

definition signed_inf :: "real \<Rightarrow> pyfloat" where
  "signed_inf s = (if 0 < s then PInf else if s < 0 then NInf else NaN)"

definition fmul :: "pyfloat \<Rightarrow> pyfloat \<Rightarrow> pyfloat" where
  "fmul x y =
     (if x = NaN \<or> y = NaN then NaN
      else (case (x, y) of
              (Fin a, Fin b) \<Rightarrow> Fin (a * b)
            | _ \<Rightarrow> signed_inf (fsign x * fsign y)))"

definition fadd :: "pyfloat \<Rightarrow> pyfloat \<Rightarrow> pyfloat" where
  "fadd x y =
     (case (x, y) of
        (Fin a, Fin b) \<Rightarrow> Fin (a + b)
      | (NaN, _) \<Rightarrow> NaN
      | (_, NaN) \<Rightarrow> NaN
      | (PInf, NInf) \<Rightarrow> NaN
      | (NInf, PInf) \<Rightarrow> NaN
      | (Fin a, i) \<Rightarrow> i
      | (i, _) \<Rightarrow> i)"

text \<open>\<open>PRICES[key]\<close> raises \<open>KeyError\<close> on a missing key.\<close>

definition subscript :: "'v dict \<Rightarrow> string \<Rightarrow> error + 'v" where
  "subscript d k = (case map_of d k of None \<Rightarrow> Inl KeyError | Some v \<Rightarrow> Inr v)"

definition compute_cost_usd :: "string \<Rightarrow> pyfloat \<Rightarrow> pyfloat \<Rightarrow> error + pyfloat" where
  "compute_cost_usd model avg_input_tokens avg_output_tokens =
     (let key = normalize_model_key model in
      if key = [] \<or> \<not> dict_has PRICES key then Inr (Fin 0)
      else (case subscript PRICES key of
              Inl e \<Rightarrow> Inl e
            | Inr (input_price, output_price) \<Rightarrow>
                let input_cost = fmul (or_zero avg_input_tokens) (Fin (input_price / 1000000));
                    output_cost = fmul (or_zero avg_output_tokens) (Fin (output_price / 1000000))
                in Inr (fadd input_cost output_cost)))"

text \<open>The resolution as the specification words it: (a) the stripped, lower-cased name
  itself, (b) else the part of it after the last dot and, in that, after the last path
  separator, (c) else the first key of the table, in insertion order, occurring in the
  name as a substring.\<close>

definition after_last :: "char \<Rightarrow> string \<Rightarrow> string" where
  "after_last c s = rev (takeWhile (\<lambda>x. x \<noteq> c) (rev s))"

definition resolve_tiers :: "string \<Rightarrow> string option" where
  "resolve_tiers model =
     (let name = lower (strip model) in
      if name \<in> set price_keys then Some name
      else let tail = after_last CHR ''/'' (after_last CHR ''.'' name) in
        if tail \<in> set price_keys then Some tail
        else find (\<lambda>key. sublist key name) price_keys)"

section \<open>Summary files\<close>

text \<open>
  A \<open>Path\<close> is its list of components, which is what \<open>sorted\<close> compares: component by
  component, each a string compared character by character. \<open>path.name\<close> is the last
  component.
\<close>

type_synonym path = "string list"

definition path_name :: "path \<Rightarrow> string" where
  "path_name p = (if p = [] then [] else last p)"

text \<open>
  What a path holds: nothing that can be opened, text that is not JSON, a JSON value that
  is not an object, or an object given by its members in the order of the text (a name
  may be repeated there). The file system is a function from paths.
\<close>

datatype content = Unreadable | NotJson | NonObject | Object "(string \<times> json) list"

text \<open>\<open>json.load\<close> stores the members one by one: a repeated name keeps its first
  position and its last value.\<close>

definition dict_of :: "(string \<times> 'v) list \<Rightarrow> 'v dict" where
  "dict_of members = foldl (\<lambda>d (k, v). dict_set d k v) [] members"

definition read_json :: "(path \<Rightarrow> content) \<Rightarrow> path \<Rightarrow> error + json dict" where
  "read_json fs p =
     (case fs p of
        Unreadable \<Rightarrow> Inl FileNotFoundError
      | NotJson \<Rightarrow> Inl JSONDecodeError
      | NonObject \<Rightarrow> Inl ValueError
      | Object members \<Rightarrow> Inr (dict_of members))"

text \<open>\<open>float(value)\<close>. An \<open>int\<close> that rounds beyond the largest double raises
  \<open>OverflowError\<close>. The code below converts a value only after
  \<open>isinstance(value, (int, float))\<close>, so the equations for \<open>None\<close> and strings are
  never reached; they are there to make the function total.\<close>

definition float_of_int :: "int \<Rightarrow> error + pyfloat" where
  "float_of_int i =
     (if \<bar>i\<bar> < 2 ^ 1024 - 2 ^ 970 then Inr (Fin (of_int i)) else Inl OverflowError)"

fun float_py :: "json \<Rightarrow> error + pyfloat" where
  "float_py (JInt i) = float_of_int i"
| "float_py (JNum x) = Inr x"
| "float_py (JBool b) = Inr (Fin (if b then 1 else 0))"
| "float_py (JStr s) = Inl ValueError"
| "float_py JNull = Inl ValueError"

fun isfinite :: "pyfloat \<Rightarrow> bool" where
  "isfinite (Fin a) = True"
| "isfinite x = False"

text \<open>\<open>isinstance(value, (int, float))\<close>: \<open>bool\<close> is a subclass of \<open>int\<close>.\<close>

fun is_int_or_float :: "json \<Rightarrow> bool" where
  "is_int_or_float (JInt i) = True"
| "is_int_or_float (JNum x) = True"
| "is_int_or_float (JBool b) = True"
| "is_int_or_float v = False"

fun is_bool :: "json \<Rightarrow> bool" where
  "is_bool (JBool b) = True"
| "is_bool v = False"

definition is_number :: "json \<Rightarrow> error + bool" where
  "is_number v =
     (if is_int_or_float v \<and> \<not> is_bool v
      then (case float_py v of Inl e \<Rightarrow> Inl e | Inr x \<Rightarrow> Inr (isfinite x))
      else Inr False)"

text \<open>\<open>a == b\<close> on these values: numbers (booleans among them) compare by their exact
  value and \<open>NaN\<close> equals nothing; \<open>None\<close> and strings equal only themselves.\<close>

fun number_of :: "json \<Rightarrow> pyfloat option" where
  "number_of (JBool b) = Some (Fin (if b then 1 else 0))"
| "number_of (JInt i) = Some (Fin (of_int i))"
| "number_of (JNum x) = Some x"
| "number_of v = None"

definition py_eq :: "json \<Rightarrow> json \<Rightarrow> bool" where
  "py_eq a b =
     (case (number_of a, number_of b) of
        (Some x, Some y) \<Rightarrow> x = y \<and> x \<noteq> NaN
      | (None, None) \<Rightarrow> a = b
      | _ \<Rightarrow> False)"

definition py_ne :: "json \<Rightarrow> json \<Rightarrow> bool" where
  "py_ne a b = (\<not> py_eq a b)"

text \<open>\<open>x / n\<close> for a float and an \<open>int\<close> count.\<close>

definition fdiv :: "pyfloat \<Rightarrow> nat \<Rightarrow> error + pyfloat" where
  "fdiv x n =
     (if n = 0 then Inl ZeroDivisionError
      else Inr (case x of Fin a \<Rightarrow> Fin (a / real n) | y \<Rightarrow> y))"

text \<open>A loop whose body may raise: the first error ends it.\<close>

fun fold_err :: "('a \<Rightarrow> 's \<Rightarrow> error + 's) \<Rightarrow> 'a list \<Rightarrow> 's \<Rightarrow> error + 's" where
  "fold_err f [] s = Inr s"
| "fold_err f (x # xs) s = (case f x s of Inl e \<Rightarrow> Inl e | Inr s' \<Rightarrow> fold_err f xs s')"

section \<open>Averaging a cohort\<close>

text \<open>
  The three warnings of \<open>average_group\<close>, each with the values its format string is
  filled with; \<open>warning_text\<close> is the string appended.
\<close>

datatype warning =
  Inconsistent string string
| MissingNumeric string string
| Coverage string nat nat

function str_nat :: "nat \<Rightarrow> string" where
  "str_nat n =
     (if n < 10 then [char_of (48 + n)] else str_nat (n div 10) @ [char_of (48 + n mod 10)])"
  by pat_completeness auto
termination
  by (relation "measure id") auto

definition quote :: string where
  "quote = [CHR 0x27]"

fun warning_text :: "warning \<Rightarrow> string" where
  "warning_text (Inconsistent key name) =
     ''Inconsistent non-numeric value for '' @ quote @ key @ quote @ '' in '' @ name @
     ''; using first encountered.''"
| "warning_text (MissingNumeric key name) =
     ''Numeric key '' @ quote @ key @ quote @ '' missing in '' @ name @ ''.''"
| "warning_text (Coverage key cnt total_files) =
     ''Key '' @ quote @ key @ quote @ '' appears in '' @ str_nat cnt @ ''/'' @ str_nat total_files @
     '' files; averaged over available values.''"

record agg_state =
  sums_dict :: "pyfloat dict"
  counts :: "nat dict"
  non_numeric :: "json dict"
  key_order :: "string list"
  warnings :: "warning list"

definition initial :: agg_state where
  "initial = \<lparr>sums_dict = [], counts = [], non_numeric = [], key_order = [], warnings = []\<rparr>"

text \<open>\<open>for key in data: if key not in key_order: key_order.append(key)\<close>\<close>

fun note_keys :: "string list \<Rightarrow> string list \<Rightarrow> string list" where
  "note_keys [] order = order"
| "note_keys (key # keys) order =
     note_keys keys (if key \<in> set order then order else order @ [key])"

text \<open>The body of \<open>for key, value in data.items()\<close>, for the file called \<open>name\<close>.\<close>

definition visit_item :: "string \<Rightarrow> string \<times> json \<Rightarrow> agg_state \<Rightarrow> error + agg_state" where
  "visit_item name item st =
     (case item of (key, value) \<Rightarrow>
        (case is_number value of
           Inl e \<Rightarrow> Inl e
         | Inr True \<Rightarrow>
             (case float_py value of
                Inl e \<Rightarrow> Inl e
              | Inr x \<Rightarrow>
                  Inr (st\<lparr>sums_dict := dict_set (sums_dict st) key (fadd (dd_get (sums_dict st) key (Fin 0)) x),
                          counts := dict_set (counts st) key (dd_get (counts st) key 0 + 1)\<rparr>))
         | Inr False \<Rightarrow>
             (case map_of (non_numeric st) key of
                Some first \<Rightarrow>
                  Inr (if py_ne value first
                       then st\<lparr>warnings := warnings st @ [Inconsistent key name]\<rparr>
                       else st)
              | None \<Rightarrow> Inr (st\<lparr>non_numeric := dict_set (non_numeric st) key value\<rparr>))))"

text \<open>\<open>for key in sums: if counts[key] == 0: warnings.append(...)\<close>\<close>

definition missing_warnings :: "string \<Rightarrow> agg_state \<Rightarrow> warning list" where
  "missing_warnings name st =
     map (\<lambda>key. MissingNumeric key name)
       (filter (\<lambda>key. dd_get (counts st) key 0 = 0) (map fst (sums_dict st)))"

definition process_file :: "(path \<Rightarrow> content) \<Rightarrow> path \<Rightarrow> agg_state \<Rightarrow> error + agg_state" where
  "process_file fs p st =
     (case read_json fs p of
        Inl e \<Rightarrow> Inl e
      | Inr data \<Rightarrow>
          (case fold_err (visit_item (path_name p)) data
                  (st\<lparr>key_order := note_keys (map fst data) (key_order st)\<rparr>) of
             Inl e \<Rightarrow> Inl e
           | Inr st' \<Rightarrow>
               Inr (st'\<lparr>warnings := warnings st' @ missing_warnings (path_name p) st'\<rparr>)))"

text \<open>\<open>for key in key_order: ...\<close>, carrying \<open>result\<close> and \<open>warnings\<close>.\<close>

fun emit_fields ::
  "agg_state \<Rightarrow> nat \<Rightarrow> string list \<Rightarrow> json dict \<times> warning list \<Rightarrow> error + json dict \<times> warning list"
where
  "emit_fields st total_files [] acc = Inr acc"
| "emit_fields st total_files (key # keys) (result, ws) =
     (if dict_has (sums_dict st) key then
        (let cnt = dd_get (counts st) key 0 in
         if cnt = 0 then emit_fields st total_files keys (result, ws)
         else (case fdiv (dd_get (sums_dict st) key (Fin 0)) cnt of
                 Inl e \<Rightarrow> Inl e
               | Inr avg \<Rightarrow>
                   emit_fields st total_files keys
                     (dict_set result key (JNum avg),
                      if cnt \<noteq> total_files then ws @ [Coverage key cnt total_files] else ws)))
      else (case map_of (non_numeric st) key of
              Some v \<Rightarrow> emit_fields st total_files keys (dict_set result key v, ws)
            | None \<Rightarrow> emit_fields st total_files keys (result, ws)))"

text \<open>\<open>for key, total in sums.items(): if key not in result and counts[key]: ...\<close>\<close>

fun emit_rest :: "nat dict \<Rightarrow> pyfloat dict \<Rightarrow> json dict \<Rightarrow> error + json dict" where
  "emit_rest cnts [] result = Inr result"
| "emit_rest cnts ((key, total_sum) # items) result =
     (if \<not> dict_has result key \<and> dd_get cnts key 0 \<noteq> 0 then
        (case fdiv total_sum (dd_get cnts key 0) of
           Inl e \<Rightarrow> Inl e
         | Inr avg \<Rightarrow> emit_rest cnts items (dict_set result key (JNum avg)))
      else emit_rest cnts items result)"

definition average_group ::
  "(path \<Rightarrow> content) \<Rightarrow> path list \<Rightarrow> error + json dict \<times> warning list" where
  "average_group fs file_list =
     (if file_list = [] then Inr ([], [])
      else (case fold_err (process_file fs) (sort file_list) initial of
              Inl e \<Rightarrow> Inl e
            | Inr st \<Rightarrow>
                (let total_files = length file_list in
                 case emit_fields st total_files (key_order st) ([], warnings st) of
                   Inl e \<Rightarrow> Inl e
                 | Inr (result, ws) \<Rightarrow>
                     (case emit_rest (counts st) (sums_dict st) result of
                        Inl e \<Rightarrow> Inl e
                      | Inr result' \<Rightarrow>
                          Inr (dict_set result' ''number of runs'' (JInt (int total_files)), ws)))))"

text \<open>What the caller receives: the record and the warnings as strings.\<close>

definition average_group_output ::
  "(path \<Rightarrow> content) \<Rightarrow> path list \<Rightarrow> error + json dict \<times> string list" where
  "average_group_output fs file_list =
     (case average_group fs file_list of
        Inl e \<Rightarrow> Inl e
      | Inr (result, ws) \<Rightarrow> Inr (result, map warning_text ws))"

section \<open>The cohort as the specification speaks of it\<close>

text \<open>The value of a field in the record stored at a path, if the record has the field.\<close>

definition record_field :: "(path \<Rightarrow> content) \<Rightarrow> path \<Rightarrow> string \<Rightarrow> json option" where
  "record_field fs p key = (case read_json fs p of Inr data \<Rightarrow> map_of data key | Inl e \<Rightarrow> None)"

text \<open>The occurrences of a field in a list of records, in the order of the list.\<close>

definition occurrences :: "(path \<Rightarrow> content) \<Rightarrow> string \<Rightarrow> path list \<Rightarrow> (path \<times> json) list" where
  "occurrences fs key ps = List.map_filter (\<lambda>p. map_option (Pair p) (record_field fs p key)) ps"

text \<open>A finite numeric value: an integer or a finite float, never a boolean.\<close>

fun finite_value :: "json \<Rightarrow> real option" where
  "finite_value (JInt i) = Some (of_int i)"
| "finite_value (JNum (Fin a)) = Some a"
| "finite_value v = None"

definition numeric_values :: "(path \<Rightarrow> content) \<Rightarrow> string \<Rightarrow> path list \<Rightarrow> real list" where
  "numeric_values fs key ps = List.map_filter finite_value (map snd (occurrences fs key ps))"

definition other_occurrences ::
  "(path \<Rightarrow> content) \<Rightarrow> string \<Rightarrow> path list \<Rightarrow> (path \<times> json) list" where
  "other_occurrences fs key ps = filter (\<lambda>(p, v). finite_value v = None) (occurrences fs key ps)"

text \<open>The file names the consistency warnings of a field carry, in order.\<close>

fun inconsistent_names :: "string \<Rightarrow> warning list \<Rightarrow> string list" where
  "inconsistent_names key [] = []"
| "inconsistent_names key (Inconsistent key' name # ws) =
     (if key' = key then name # inconsistent_names key ws else inconsistent_names key ws)"
| "inconsistent_names key (w # ws) = inconsistent_names key ws"

text \<open>The later occurrences that differ from the first one, by the names of their files.\<close>

fun conflicts :: "(path \<times> json) list \<Rightarrow> string list" where
  "conflicts [] = []"
| "conflicts ((p, first) # rest) =
     map (\<lambda>(q, v). path_name q) (filter (\<lambda>(q, v). py_ne v first) rest)"

text \<open>Every record of the cohort can be read, and every integer in it converts to a
  float.\<close>

fun convertible :: "json \<Rightarrow> bool" where
  "convertible (JInt i) = (\<bar>i\<bar> < 2 ^ 1024 - 2 ^ 970)"
| "convertible v = True"

definition readable :: "(path \<Rightarrow> content) \<Rightarrow> path list \<Rightarrow> bool" where
  "readable fs ps =
     list_all (\<lambda>p. case fs p of Object members \<Rightarrow> list_all (\<lambda>(k, v). convertible v) members
                      | _ \<Rightarrow> False) ps"

section \<open>What the loop maintains\<close>

text \<open>Every key of \<open>sums\<close> has been counted at least once.\<close>

definition counted :: "agg_state \<Rightarrow> bool" where
  "counted st = list_all (\<lambda>key. 0 < dd_get (counts st) key 0) (map fst (sums_dict st))"

text \<open>For one field: \<open>sums\<close> and \<open>counts\<close> hold the sum and the number of the finite
  values met so far.\<close>

definition num_tracks :: "string \<Rightarrow> agg_state \<Rightarrow> real list \<Rightarrow> bool" where
  "num_tracks key st vs =
     (dd_get (sums_dict st) key (Fin 0) = Fin (sum_list vs) \<and>
      dd_get (counts st) key 0 = length vs \<and>
      dict_has (sums_dict st) key = (vs \<noteq> []))"

text \<open>For one field: \<open>non_numeric\<close> holds the first of the other values met so far, and
  the consistency warnings are those of the later ones that differ from it.\<close>

definition nn_tracks :: "string \<Rightarrow> agg_state \<Rightarrow> (path \<times> json) list \<Rightarrow> bool" where
  "nn_tracks key st os =
     (map_of (non_numeric st) key = (case os of [] \<Rightarrow> None | (p, v) # rest \<Rightarrow> Some v) \<and>
      inconsistent_names key (warnings st) = conflicts os)"

fun is_inconsistent :: "warning \<Rightarrow> bool" where
  "is_inconsistent (Inconsistent key name) = True"
| "is_inconsistent w = False"

text \<open>The value \<open>average_group\<close> stores for a field after the loop: the average if the
  field is in \<open>sums\<close> (nothing on a zero count), else its entry in \<open>non_numeric\<close>.\<close>

definition field_out :: "agg_state \<Rightarrow> string \<Rightarrow> json option" where
  "field_out st key =
     (if dict_has (sums_dict st) key then
        (if dd_get (counts st) key 0 = 0 then None
         else Some (JNum (case dd_get (sums_dict st) key (Fin 0) of
                            Fin a \<Rightarrow> Fin (a / real (dd_get (counts st) key 0)) | y \<Rightarrow> y)))
      else map_of (non_numeric st) key)"

text \<open>The first record, in the order of processing, that carries a field.\<close>

definition first_carrier :: "(path \<Rightarrow> content) \<Rightarrow> string \<Rightarrow> path list \<Rightarrow> path option" where
  "first_carrier fs key ps = find (\<lambda>p. record_field fs p key \<noteq> None) (sort ps)"

section \<open>Grouping the files of a directory\<close>

text \<open>
  The pattern language \<open>SUMMARY_PATTERN\<close> is written in: a sequence of literal texts,
  greedy repetitions \<open>c+\<close> of a class of characters, and the anchor \<open>$\<close>. The matcher
  tries a repetition at its longest first and gives up one character at a time, as
  \<open>re\<close> does, and returns the text each item consumed on the first path that succeeds.
  \<open>re.match\<close> anchors the start; \<open>$\<close> matches at the end and before a line feed that
  ends the string.
\<close>

datatype item = Lit string | Many1 "char \<Rightarrow> bool" | End

definition newline :: char where
  "newline = CHR 0x0A"

definition first_some :: "(nat \<Rightarrow> 'a option) \<Rightarrow> nat list \<Rightarrow> 'a option" where
  "first_some f ns = (case find (\<lambda>n. f n \<noteq> None) ns of None \<Rightarrow> None | Some n \<Rightarrow> f n)"

fun rx_match :: "item list \<Rightarrow> string \<Rightarrow> string list option" where
  "rx_match [] s = Some []"
| "rx_match (Lit l # items) s =
     (if prefix l s then map_option (Cons l) (rx_match items (drop (length l) s)) else None)"
| "rx_match (End # items) s =
     (if s = [] \<or> s = [newline] then map_option (Cons []) (rx_match items s) else None)"
| "rx_match (Many1 cls # items) s =
     first_some (\<lambda>n. map_option (Cons (take n s)) (rx_match items (drop n s)))
       (rev [1..<Suc (length (takeWhile cls s))])"

text \<open>\<open>^(?P<prefix>.+)_id[^_]+_summary\.json$\<close>: the dot is any character but the line
  feed.\<close>

definition SUMMARY_PATTERN :: "item list" where
  "SUMMARY_PATTERN =
     [Many1 (\<lambda>c. c \<noteq> newline), Lit ''_id'', Many1 (\<lambda>c. c \<noteq> CHR ''_''),
      Lit ''_summary.json'', End]"

text \<open>\<open>match.group("prefix")\<close> of \<open>SUMMARY_PATTERN.match(name)\<close>, if it matches.\<close>

definition summary_prefix :: "string \<Rightarrow> string option" where
  "summary_prefix name =
     (case rx_match SUMMARY_PATTERN name of Some (captured # others) \<Rightarrow> Some captured | _ \<Rightarrow> None)"

text \<open>\<open>data_dir.glob("*.json")\<close> yields the entries of the directory whose name ends in
  \<open>.json\<close>; \<open>names\<close> lists the entries in the order the directory gives them.\<close>

definition glob_json :: "string \<Rightarrow> bool" where
  "glob_json name = suffix ''.json'' name"

definition collect_groups :: "path \<Rightarrow> string list \<Rightarrow> path list dict" where
  "collect_groups data_dir names =
     foldl (\<lambda>groups name.
              case summary_prefix name of
                Some pre \<Rightarrow> dict_set groups pre (dd_get groups pre [] @ [data_dir @ [name]])
              | None \<Rightarrow> groups)
       [] (filter glob_json names)"

text \<open>The shape of a name that is grouped: a key that is not empty and has no line feed,
  \<open>_id\<close>, a token that is not empty and has no underscore, \<open>_summary.json\<close>.\<close>

definition summary_shape :: "string \<Rightarrow> string \<Rightarrow> string \<Rightarrow> bool" where
  "summary_shape key token name =
     (name = key @ ''_id'' @ token @ ''_summary.json'' \<and> key \<noteq> [] \<and> newline \<notin> set key \<and>
      token \<noteq> [] \<and> CHR ''_'' \<notin> set token)"

text \<open>The part of the pattern after the prefix.\<close>

definition tail_pattern :: "item list" where
  "tail_pattern = [Lit ''_id'', Many1 (\<lambda>c. c \<noteq> CHR ''_''), Lit ''_summary.json'', End]"

text \<open>The shape as the specification words it: \<open><key>_id<token>_summary.json\<close> with a
  token that is not empty and has no underscore.\<close>

definition claimed_shape :: "string \<Rightarrow> string \<Rightarrow> string \<Rightarrow> bool" where
  "claimed_shape key token name =
     (name = key @ ''_id'' @ token @ ''_summary.json'' \<and> token \<noteq> [] \<and> CHR ''_'' \<notin> set token)"

text \<open>A directory listing.\<close>

definition listing :: "string list" where
  "listing = [''m_id1_summary.json'', ''notes.json'', ''k_id3_summary.json'',
              ''m_id2_summary.json'', ''m_id4_summary.txt'']"

section \<open>Example cohorts\<close>

definition run1 :: path where
  "run1 = [''data'', ''m_id1_summary.json'']"

definition run2 :: path where
  "run2 = [''data'', ''m_id2_summary.json'']"

definition run3 :: path where
  "run3 = [''data'', ''m_id3_summary.json'']"

text \<open>Three runs: a field present everywhere, a text field that differs once, a field
  present in two runs, and a user field called \<open>number of runs\<close>.\<close>

definition cohort_fs :: "path \<Rightarrow> content" where
  "cohort_fs p =
     (if p = run1 then
        Object [(''avg_input_tokens'', JInt 100), (''status'', JStr ''ok''),
                (''latency_ms'', JInt 10)]
      else if p = run2 then
        Object [(''avg_input_tokens'', JInt 200), (''status'', JStr ''retry''),
                (''latency_ms'', JNum (Fin 20))]
      else if p = run3 then
        Object [(''avg_input_tokens'', JInt 150), (''status'', JStr ''ok''),
                (''number of runs'', JInt 7)]
      else Unreadable)"

text \<open>Three runs whose field \<open>x\<close> is text twice and a number once.\<close>

definition mixed_fs :: "path \<Rightarrow> content" where
  "mixed_fs p =
     (if p = run1 then Object [(''x'', JStr ''ok'')]
      else if p = run2 then Object [(''x'', JStr ''retry'')]
      else if p = run3 then Object [(''x'', JInt 3), (''flag'', JBool True)]
      else Unreadable)"

text \<open>Every path holds the same one-member object.\<close>

definition constant_fs :: "string \<Rightarrow> json \<Rightarrow> path \<Rightarrow> content" where
  "constant_fs key v p = Object [(key, v)]"

section \<open>The metrics the chart loaders read from a summary\<close>

text \<open>
  \<open>load_merge1_summaries\<close> and \<open>load_summaries\<close> build the metrics of one file with the
  same statements; \<open>summary_metrics\<close> is that part, for the model name taken from the
  file name and the parsed object.
\<close>

definition SKIP_KEYS :: "string list" where
  "SKIP_KEYS = [''number of runs'']"

text \<open>The truth value of a value, for \<open>data.get("model name") or model\<close>.\<close>

fun json_truthy :: "json \<Rightarrow> bool" where
  "json_truthy JNull = False"
| "json_truthy (JBool b) = b"
| "json_truthy (JInt i) = (i \<noteq> 0)"
| "json_truthy (JNum x) = (x \<noteq> Fin 0)"
| "json_truthy (JStr s) = (s \<noteq> [])"

text \<open>The loop over \<open>data.items()\<close> that fills \<open>metrics\<close>.\<close>

fun collect_metrics :: "json dict \<Rightarrow> pyfloat dict \<Rightarrow> error + pyfloat dict" where
  "collect_metrics [] metrics = Inr metrics"
| "collect_metrics ((key, value) # items) metrics =
     (if key \<in> set SKIP_KEYS then collect_metrics items metrics
      else if is_int_or_float value then
        (case float_py value of
           Inl e \<Rightarrow> Inl e
         | Inr x \<Rightarrow> collect_metrics items (dict_set metrics key x))
      else collect_metrics items metrics)"

text \<open>\<open>compute_cost_usd\<close> on the value the loader passes as the model: a value that is
  not a string is true there, and \<open>normalize_model_key\<close> fails on its missing \<open>strip\<close>.\<close>

definition cost_of :: "json \<Rightarrow> pyfloat \<Rightarrow> pyfloat \<Rightarrow> error + pyfloat" where
  "cost_of model_value avg_input_tokens avg_output_tokens =
     (case model_value of
        JStr s \<Rightarrow> compute_cost_usd s avg_input_tokens avg_output_tokens
      | _ \<Rightarrow> Inl AttributeError)"

definition setdefault :: "'v dict \<Rightarrow> string \<Rightarrow> 'v \<Rightarrow> 'v dict" where
  "setdefault d k v = (if dict_has d k then d else d @ [(k, v)])"

definition summary_metrics :: "string \<Rightarrow> json dict \<Rightarrow> error + pyfloat dict" where
  "summary_metrics model data =
     (case collect_metrics data [] of
        Inl e \<Rightarrow> Inl e
      | Inr metrics \<Rightarrow>
          if dict_has metrics ''avg_input_tokens'' \<or> dict_has metrics ''avg_output_tokens'' then
            (case cost_of (case map_of data ''model name'' of
                             Some v \<Rightarrow> if json_truthy v then v else JStr model
                           | None \<Rightarrow> JStr model)
                    (dd_get metrics ''avg_input_tokens'' (Fin 0))
                    (dd_get metrics ''avg_output_tokens'' (Fin 0)) of
               Inl e \<Rightarrow> Inl e
             | Inr cost \<Rightarrow> Inr (setdefault metrics ''avg_cost_usd'' cost))
          else Inr metrics)"

text \<open>Two summaries: one that carries its own cost, one that does not.\<close>

definition costed_summary :: "(string \<times> json) list" where
  "costed_summary =
     [(''avg_input_tokens'', JInt 1000), (''avg_output_tokens'', JInt 500),
      (''avg_cost_usd'', JNum (Fin (1 / 2))), (''model name'', JStr ''openai.gpt-4.1-nano''),
      (''number of runs'', JInt 3)]"

definition plain_summary :: "(string \<times> json) list" where
  "plain_summary =
     [(''avg_input_tokens'', JInt 1000), (''avg_output_tokens'', JInt 500),
      (''model name'', JStr ''openai.gpt-4.1-nano''), (''number of runs'', JInt 3)]"

section \<open>Properties of the cost estimate\<close>

lemma split_not_Nil: "split c s \<noteq> []"
  by (induction s) (auto split: list.splits)

lemma split_no_sep: "c \<notin> set s \<Longrightarrow> split c s = [s]"
  by (induction s) auto

lemma split_sep: "c \<in> set s \<Longrightarrow> \<exists>a b rest. split c s = a # b # rest"
proof (induction s)
  case Nil
  then show ?case by simp
next
  case (Cons x xs)
  show ?case
  proof (cases "x = c")
    case True
    then show ?thesis using split_not_Nil [of c xs] by (cases "split c xs") auto
  next
    case False
    with Cons obtain a b rest where "split c xs = a # b # rest" by auto
    with False show ?thesis by simp
  qed
qed

lemma takeWhile_neq_append:
  "c \<notin> set ys \<Longrightarrow> takeWhile (\<lambda>x. x \<noteq> c) (ys @ zs) = ys @ takeWhile (\<lambda>x. x \<noteq> c) zs"
  by (induction ys) auto

lemma takeWhile_neq_all: "c \<notin> set ys \<Longrightarrow> takeWhile (\<lambda>x. x \<noteq> c) ys = ys"
  by (induction ys) auto

lemma after_last_no_sep: "c \<notin> set s \<Longrightarrow> after_last c s = s"
  by (simp add: after_last_def takeWhile_neq_all)

lemma after_last_Cons_sep: "c \<in> set xs \<Longrightarrow> after_last c (x # xs) = after_last c xs"
  by (simp add: after_last_def)

lemma after_last_sep_Cons: "c \<notin> set xs \<Longrightarrow> after_last c (c # xs) = xs"
  using takeWhile_neq_append [of c "rev xs" "[c]"] by (simp add: after_last_def)

lemma last_split: "last (split c s) = after_last c s"
proof (induction s)
  case Nil
  show ?case by (simp add: after_last_def)
next
  case (Cons x xs)
  show ?case
  proof (cases "c \<in> set xs")
    case True
    then obtain a b rest where s: "split c xs = a # b # rest"
      using split_sep by blast
    with Cons True show ?thesis by (simp add: after_last_Cons_sep)
  next
    case False
    then show ?thesis
      by (simp add: split_no_sep after_last_sep_Cons after_last_no_sep)
  qed
qed

lemma contains_sublist: "contains s k = sublist k s"
  by (induction s) (auto simp: sublist_Cons_right)

lemma scan_keys_find:
  "scan_keys keys n = (case find (\<lambda>key. sublist key n) keys of Some k \<Rightarrow> k | None \<Rightarrow> [])"
  by (induction keys) (auto simp: contains_sublist)

lemma dict_has_PRICES: "dict_has PRICES k = (k \<in> set price_keys)"
  by (simp add: dict_has_def price_keys_def map_of_eq_None_iff)

lemma Nil_not_key: "[] \<notin> set price_keys"
  by (simp add: price_keys_def PRICES_def)

lemma resolve_tiers_Nil: "resolve_tiers [] = None"
  using Nil_not_key
  by (auto simp: resolve_tiers_def lower_def strip_def after_last_def find_None_iff)


lemma normalize_model_key_resolve:
  "normalize_model_key model = (case resolve_tiers model of Some k \<Rightarrow> k | None \<Rightarrow> [])"
proof (cases "model = []")
  case True
  then show ?thesis by (simp add: normalize_model_key_def resolve_tiers_Nil)
next
  case False
  then show ?thesis
    by (simp add: normalize_model_key_def resolve_tiers_def Let_def dict_has_PRICES
        last_split scan_keys_find)
qed



lemma compute_cost_usd_total: "\<exists>c. compute_cost_usd model tin tout = Inr c"
  by (auto simp: compute_cost_usd_def Let_def subscript_def dict_has_def split: option.splits)

text \<open>
  Claim C6. A model name that none of the three tiers resolves costs exactly \<open>0.0\<close>,
  whatever the token counts (non-finite ones included), and \<open>compute_cost_usd\<close>
  returns a value on every string and every pair of floats: no branch raises.
\<close>

theorem cost_fallback_zero:
  "(\<exists>c. compute_cost_usd model tin tout = Inr c) \<and>
   (resolve_tiers model = None \<longrightarrow> compute_cost_usd model tin tout = Inr (Fin 0))"
  by (simp add: compute_cost_usd_total) (simp add: compute_cost_usd_def normalize_model_key_resolve)

theorem cost_fallback_zero_witness:
  "resolve_tiers ''meta/llama-3'' = None \<and>
   compute_cost_usd ''meta/llama-3'' (Fin 1200) PInf = Inr (Fin 0)"
proof -
  have h: "resolve_tiers ''meta/llama-3'' = None" by code_simp
  with cost_fallback_zero [of "''meta/llama-3''" "Fin 1200" PInf] show ?thesis by simp
qed



section \<open>Dictionaries and the classification of values\<close>

lemma map_of_dict_set: "map_of (dict_set d k v) k' = (if k' = k then Some v else map_of d k')"
proof (cases "k \<in> fst ` set d")
  case True
  have "map_of (map (\<lambda>(a, b). if a = k then (a, v) else (a, b)) d) k' =
        (if k' = k then (if k \<in> fst ` set d then Some v else None) else map_of d k')"
    by (induction d) (auto split: if_splits)
  with True show ?thesis by (simp add: dict_set_def)
next
  case False
  then have "map_of d k = None" by (simp add: map_of_eq_None_iff)
  with False show ?thesis by (auto simp: dict_set_def map_add_def split: option.splits)
qed

lemma keys_dict_set:
  "map fst (dict_set d k v) = (if k \<in> set (map fst d) then map fst d else map fst d @ [k])"
proof -
  have "map fst (map (\<lambda>(a, b). if a = k then (a, v) else (a, b)) d) = map fst d"
    by (induction d) auto
  then show ?thesis by (auto simp: dict_set_def)
qed

lemma distinct_dict_set: "distinct (map fst d) \<Longrightarrow> distinct (map fst (dict_set d k v))"
  by (simp add: keys_dict_set)

lemma distinct_foldl_dict_set:
  "distinct (map fst d) \<Longrightarrow> distinct (map fst (foldl (\<lambda>d (k, v). dict_set d k v) d ms))"
  by (induction ms arbitrary: d) (auto simp: distinct_dict_set)

lemma distinct_dict_of: "distinct (map fst (dict_of ms))"
  by (simp add: dict_of_def distinct_foldl_dict_set)

lemma dd_get_dict_set: "dd_get (dict_set d k v) k' z = (if k' = k then v else dd_get d k' z)"
  by (simp add: dd_get_def map_of_dict_set)

lemma dict_has_dict_set: "dict_has (dict_set d k v) k' = (k' = k \<or> dict_has d k')"
  by (simp add: dict_has_def map_of_dict_set)

lemma is_number_True: "is_number v = Inr True \<Longrightarrow> \<exists>r. float_py v = Inr (Fin r) \<and> finite_value v = Some r"
  apply (cases v; simp add: is_number_def float_of_int_def split: if_splits sum.splits)
  subgoal for x by (cases x) auto
  done

lemma is_number_False: "is_number v = Inr False \<Longrightarrow> finite_value v = None"
  apply (cases v; simp add: is_number_def float_of_int_def split: if_splits sum.splits)
  subgoal for x by (cases x) auto
  done

lemma visit_item_cases:
  assumes "visit_item name (k, v) st = Inr st'"
  obtains
    (numeric) r where "finite_value v = Some r"
      "st' = st\<lparr>sums_dict := dict_set (sums_dict st) k (fadd (dd_get (sums_dict st) k (Fin 0)) (Fin r)),
                 counts := dict_set (counts st) k (dd_get (counts st) k 0 + 1)\<rparr>"
  | (first) "finite_value v = None" "map_of (non_numeric st) k = None"
      "st' = st\<lparr>non_numeric := dict_set (non_numeric st) k v\<rparr>"
  | (same) first where "finite_value v = None" "map_of (non_numeric st) k = Some first"
      "\<not> py_ne v first" "st' = st"
  | (differs) first where "finite_value v = None" "map_of (non_numeric st) k = Some first"
      "py_ne v first" "st' = st\<lparr>warnings := warnings st @ [Inconsistent k name]\<rparr>"
proof (cases "is_number v")
  case (Inl e)
  with assms show ?thesis by (simp add: visit_item_def)
next
  case (Inr b)
  show ?thesis
  proof (cases b)
    case True
    with Inr have "is_number v = Inr True" by simp
    then obtain r where "float_py v = Inr (Fin r)" "finite_value v = Some r"
      using is_number_True by blast
    with assms Inr True show ?thesis using numeric by (auto simp: visit_item_def)
  next
    case False
    with Inr have "is_number v = Inr False" by simp
    then have "finite_value v = None" by (rule is_number_False)
    with assms Inr False show ?thesis using first same differs
      by (cases "map_of (non_numeric st) k") (auto simp: visit_item_def split: if_splits)
  qed
qed

section \<open>One item, seen from one field\<close>

lemma fold_err_append:
  "fold_err f (xs @ ys) s = (case fold_err f xs s of Inl e \<Rightarrow> Inl e | Inr s' \<Rightarrow> fold_err f ys s')"
  by (induction xs arbitrary: s) (auto split: sum.splits)

lemma fold_err_invariant:
  assumes "fold_err f xs s = Inr s'" and "P s"
    and "\<And>x t t'. x \<in> set xs \<Longrightarrow> f x t = Inr t' \<Longrightarrow> P t \<Longrightarrow> P t'"
  shows "P s'"
  using assms
proof (induction xs arbitrary: s)
  case Nil
  then show ?case by simp
next
  case (Cons x xs)
  from Cons.prems(1) obtain t where t: "f x s = Inr t" and rest: "fold_err f xs t = Inr s'"
    by (auto split: sum.splits)
  have "P t" using Cons.prems(3) [OF _ t Cons.prems(2)] by simp
  with rest show ?case using Cons.IH Cons.prems(3) by auto
qed

text \<open>A loop over the items of a dictionary, seen from one key.\<close>

lemma fold_items_key:
  assumes step: "\<And>k' v t t' a. f (k', v) t = Inr t' \<Longrightarrow> Inv t a \<Longrightarrow>
                    Inv t' (if k' = k then a @ g v else a)"
    and "fold_err f items st = Inr st'" and "distinct (map fst items)" and "Inv st acc"
  shows "Inv st' (acc @ (case map_of items k of Some v \<Rightarrow> g v | None \<Rightarrow> []))"
  using assms(2-)
proof (induction items arbitrary: st acc)
  case Nil
  then show ?case by simp
next
  case (Cons item items)
  obtain k' v where item: "item = (k', v)" by (cases item)
  from Cons.prems(1) obtain t where t: "f (k', v) st = Inr t" and rest: "fold_err f items t = Inr st'"
    by (auto simp: item split: sum.splits)
  from Cons.prems(2) have d: "distinct (map fst items)" and notin: "k' \<notin> fst ` set items"
    by (auto simp: item)
  have inv: "Inv t (if k' = k then acc @ g v else acc)"
    using step [OF t Cons.prems(3)] .
  show ?case
  proof (cases "k' = k")
    case True
    with notin have "map_of items k = None" by (simp add: map_of_eq_None_iff)
    with Cons.IH [OF rest d inv] True show ?thesis by (simp add: item)
  next
    case False
    with Cons.IH [OF rest d inv] show ?thesis by (simp add: item)
  qed
qed

lemma visit_item_num:
  assumes "visit_item name (k', v) st = Inr st'" and "num_tracks k st vs"
  shows "num_tracks k st'
           (if k' = k then vs @ (case finite_value v of Some r \<Rightarrow> [r] | None \<Rightarrow> []) else vs)"
  using assms(1)
proof (cases rule: visit_item_cases)
  case (numeric r)
  with assms(2) show ?thesis
    by (auto simp: num_tracks_def dd_get_dict_set dict_has_dict_set fadd_def)
qed (use assms(2) in \<open>auto simp: num_tracks_def\<close>)

lemma inconsistent_names_append:
  "inconsistent_names k (ws @ ws') = inconsistent_names k ws @ inconsistent_names k ws'"
  by (induction k ws rule: inconsistent_names.induct) auto

lemma conflicts_snoc:
  "conflicts (os @ [(p, v)]) =
     (case os of [] \<Rightarrow> [] | (q, first) # rest \<Rightarrow>
        conflicts os @ (if py_ne v first then [path_name p] else []))"
  by (cases os) auto

lemma visit_item_nn:
  assumes "visit_item (path_name p) (k', v) st = Inr st'" and "nn_tracks k st os"
  shows "nn_tracks k st'
           (if k' = k then os @ (if finite_value v = None then [(p, v)] else []) else os)"
  using assms(1)
proof (cases rule: visit_item_cases)
  case (numeric r)
  with assms(2) show ?thesis by (auto simp: nn_tracks_def)
next
  case first
  with assms(2) show ?thesis
    by (cases os) (auto simp: nn_tracks_def map_of_dict_set)
next
  case (same first)
  with assms(2) show ?thesis
    by (cases os) (auto simp: nn_tracks_def)
next
  case (differs first)
  with assms(2) show ?thesis
    by (cases os) (auto simp: nn_tracks_def inconsistent_names_append)
qed

section \<open>One file and the whole cohort, seen from one field\<close>

lemma process_file_cases:
  assumes "process_file fs p st = Inr st'"
  obtains data st1 where "read_json fs p = Inr data" "distinct (map fst data)"
    "fold_err (visit_item (path_name p)) data
       (st\<lparr>key_order := note_keys (map fst data) (key_order st)\<rparr>) = Inr st1"
    "st' = st1\<lparr>warnings := warnings st1 @ missing_warnings (path_name p) st1\<rparr>"
proof (cases "read_json fs p")
  case (Inl e)
  with assms show ?thesis by (simp add: process_file_def)
next
  case (Inr data)
  then have "distinct (map fst data)"
    by (auto simp: read_json_def distinct_dict_of split: content.splits)
  with assms Inr that show ?thesis
    by (auto simp: process_file_def split: sum.splits)
qed

lemma occurrences_single:
  "read_json fs p = Inr data \<Longrightarrow>
   occurrences fs k [p] = (case map_of data k of Some v \<Rightarrow> [(p, v)] | None \<Rightarrow> [])"
  by (simp add: occurrences_def record_field_def split: option.splits)

lemma occurrences_Cons: "occurrences fs k (p # ps) = occurrences fs k [p] @ occurrences fs k ps"
  by (simp add: occurrences_def split: option.splits)

lemma map_filter_append: "List.map_filter f (xs @ ys) = List.map_filter f xs @ List.map_filter f ys"
  by (simp add: List.map_filter_def)

lemma numeric_values_Cons:
  "numeric_values fs k (p # ps) = numeric_values fs k [p] @ numeric_values fs k ps"
  unfolding numeric_values_def occurrences_Cons [of fs k p ps] by (simp add: map_filter_append)

lemma other_occurrences_Cons:
  "other_occurrences fs k (p # ps) = other_occurrences fs k [p] @ other_occurrences fs k ps"
  unfolding other_occurrences_def occurrences_Cons [of fs k p ps] by simp

lemma numeric_values_Nil: "numeric_values fs k [] = []"
  by (simp add: numeric_values_def occurrences_def)

lemma other_occurrences_Nil: "other_occurrences fs k [] = []"
  by (simp add: other_occurrences_def occurrences_def)

lemma process_file_num:
  assumes "process_file fs p st = Inr st'" and "num_tracks k st vs"
  shows "num_tracks k st' (vs @ numeric_values fs k [p])"
  using assms(1)
proof (cases rule: process_file_cases)
  case (1 data st1)
  let ?g = "\<lambda>v. case finite_value v of Some r \<Rightarrow> [r] | None \<Rightarrow> []"
  have start: "num_tracks k (st\<lparr>key_order := note_keys (map fst data) (key_order st)\<rparr>) vs"
    using assms(2) by (simp add: num_tracks_def)
  have "num_tracks k st1 (vs @ (case map_of data k of Some v \<Rightarrow> ?g v | None \<Rightarrow> []))"
  proof (rule fold_items_key [where Inv = "num_tracks k", OF _ 1(3) 1(2) start])
    fix k' v t t' a
    assume "visit_item (path_name p) (k', v) t = Inr t'" "num_tracks k t a"
    then show "num_tracks k t' (if k' = k then a @ ?g v else a)"
      by (rule visit_item_num)
  qed
  moreover have "numeric_values fs k [p] = (case map_of data k of Some v \<Rightarrow> ?g v | None \<Rightarrow> [])"
    by (simp add: numeric_values_def occurrences_single [OF 1(1)] split: option.splits)
  ultimately show ?thesis using 1(4) by (simp add: num_tracks_def)
qed

lemma inconsistent_names_missing: "inconsistent_names k (missing_warnings name st) = []"
proof -
  have "inconsistent_names k (map (\<lambda>key. MissingNumeric key name) ks) = []" for ks
    by (induction ks) auto
  then show ?thesis by (simp add: missing_warnings_def)
qed

lemma process_file_nn:
  assumes "process_file fs p st = Inr st'" and "nn_tracks k st os"
  shows "nn_tracks k st' (os @ other_occurrences fs k [p])"
  using assms(1)
proof (cases rule: process_file_cases)
  case (1 data st1)
  let ?g = "\<lambda>v. if finite_value v = None then [(p, v)] else []"
  have start: "nn_tracks k (st\<lparr>key_order := note_keys (map fst data) (key_order st)\<rparr>) os"
    using assms(2) by (simp add: nn_tracks_def)
  have "nn_tracks k st1 (os @ (case map_of data k of Some v \<Rightarrow> ?g v | None \<Rightarrow> []))"
  proof (rule fold_items_key [where Inv = "nn_tracks k", OF _ 1(3) 1(2) start])
    fix k' v t t' a
    assume "visit_item (path_name p) (k', v) t = Inr t'" "nn_tracks k t a"
    then show "nn_tracks k t' (if k' = k then a @ ?g v else a)"
      by (rule visit_item_nn)
  qed
  moreover have "other_occurrences fs k [p] = (case map_of data k of Some v \<Rightarrow> ?g v | None \<Rightarrow> [])"
    by (simp add: other_occurrences_def occurrences_single [OF 1(1)] split: option.splits)
  ultimately show ?thesis using 1(4)
    by (simp add: nn_tracks_def inconsistent_names_append inconsistent_names_missing)
qed

lemma fold_files_num:
  "fold_err (process_file fs) ps st = Inr st' \<Longrightarrow> num_tracks k st vs \<Longrightarrow>
   num_tracks k st' (vs @ numeric_values fs k ps)"
proof (induction ps arbitrary: st vs)
  case Nil
  then show ?case by (simp add: numeric_values_Nil)
next
  case (Cons p ps)
  from Cons.prems(1) obtain t where t: "process_file fs p st = Inr t"
    and rest: "fold_err (process_file fs) ps t = Inr st'"
    by (auto split: sum.splits)
  from Cons.IH [OF rest process_file_num [OF t Cons.prems(2)]]
  show ?case by (simp add: numeric_values_Cons [of fs k p ps])
qed

lemma fold_files_nn:
  "fold_err (process_file fs) ps st = Inr st' \<Longrightarrow> nn_tracks k st os \<Longrightarrow>
   nn_tracks k st' (os @ other_occurrences fs k ps)"
proof (induction ps arbitrary: st os)
  case Nil
  then show ?case by (simp add: other_occurrences_Nil)
next
  case (Cons p ps)
  from Cons.prems(1) obtain t where t: "process_file fs p st = Inr t"
    and rest: "fold_err (process_file fs) ps t = Inr st'"
    by (auto split: sum.splits)
  from Cons.IH [OF rest process_file_nn [OF t Cons.prems(2)]]
  show ?case by (simp add: other_occurrences_Cons [of fs k p ps])
qed

section \<open>Key order and the absence of missing-key warnings\<close>

lemma visit_item_key_order:
  assumes "visit_item name item st = Inr st'"
  shows "key_order st' = key_order st"
proof -
  obtain k v where "item = (k, v)" by (cases item)
  with assms have "visit_item name (k, v) st = Inr st'" by simp
  then show ?thesis by (cases rule: visit_item_cases) auto
qed

lemma set_note_keys: "set (note_keys ks order) = set order \<union> set ks"
  by (induction ks arbitrary: order) auto

lemma distinct_note_keys: "distinct order \<Longrightarrow> distinct (note_keys ks order)"
  by (induction ks arbitrary: order) auto

lemma process_file_key_order:
  assumes "process_file fs p st = Inr st'"
  shows "(k \<in> set (key_order st')) = (k \<in> set (key_order st) \<or> occurrences fs k [p] \<noteq> [])"
    and "distinct (key_order st) \<Longrightarrow> distinct (key_order st')"
  using assms
proof (atomize (full), cases rule: process_file_cases)
  case (1 data st1)
  let ?st0 = "st\<lparr>key_order := note_keys (map fst data) (key_order st)\<rparr>"
  have "key_order st1 = key_order ?st0"
    by (rule fold_err_invariant [OF 1(3), where P = "\<lambda>t. key_order t = key_order ?st0"])
      (auto dest: visit_item_key_order)
  moreover have "(map_of data k \<noteq> None) = (k \<in> fst ` set data)"
    by (simp add: map_of_eq_None_iff)
  ultimately show "((k \<in> set (key_order st')) = (k \<in> set (key_order st) \<or> occurrences fs k [p] \<noteq> [])) \<and>
     (distinct (key_order st) \<longrightarrow> distinct (key_order st'))"
    using 1(4) by (auto simp: set_note_keys distinct_note_keys occurrences_single [OF 1(1)]
        split: option.splits)
qed

lemma fold_files_key_order:
  "fold_err (process_file fs) ps st = Inr st' \<Longrightarrow>
   (k \<in> set (key_order st')) = (k \<in> set (key_order st) \<or> occurrences fs k ps \<noteq> [])"
proof (induction ps arbitrary: st)
  case Nil
  then show ?case by (simp add: occurrences_def)
next
  case (Cons p ps)
  from Cons.prems(1) obtain t where t: "process_file fs p st = Inr t"
    and rest: "fold_err (process_file fs) ps t = Inr st'"
    by (auto split: sum.splits)
  from Cons.IH [OF rest] process_file_key_order(1) [OF t, of k]
  show ?case by (auto simp: occurrences_Cons [of fs k p ps])
qed

lemma fold_files_distinct:
  "fold_err (process_file fs) ps st = Inr st' \<Longrightarrow> distinct (key_order st) \<Longrightarrow>
   distinct (key_order st')"
  by (erule fold_err_invariant) (auto dest: process_file_key_order(2))

lemma counted_iff: "counted st = (\<forall>k. dict_has (sums_dict st) k \<longrightarrow> 0 < dd_get (counts st) k 0)"
  by (auto simp: counted_def list_all_iff dict_has_def map_of_eq_None_iff)

lemma visit_item_counted:
  assumes "visit_item name item st = Inr st'" and "counted st"
  shows "counted st'"
proof -
  obtain k v where "item = (k, v)" by (cases item)
  with assms(1) have "visit_item name (k, v) st = Inr st'" by simp
  then show ?thesis
    by (cases rule: visit_item_cases)
      (use assms(2) in \<open>auto simp: counted_iff dict_has_dict_set dd_get_dict_set\<close>)
qed

lemma visit_item_warnings:
  assumes "visit_item name item st = Inr st'" and "list_all is_inconsistent (warnings st)"
  shows "list_all is_inconsistent (warnings st')"
proof -
  obtain k v where "item = (k, v)" by (cases item)
  with assms(1) have "visit_item name (k, v) st = Inr st'" by simp
  then show ?thesis
    by (cases rule: visit_item_cases) (use assms(2) in auto)
qed

lemma missing_warnings_counted: "counted st \<Longrightarrow> missing_warnings name st = []"
  by (auto simp: missing_warnings_def counted_def list_all_iff filter_empty_conv)

lemma process_file_clean:
  assumes "process_file fs p st = Inr st'"
    and "counted st \<and> list_all is_inconsistent (warnings st)"
  shows "counted st' \<and> list_all is_inconsistent (warnings st')"
  using assms(1)
proof (cases rule: process_file_cases)
  case (1 data st1)
  let ?st0 = "st\<lparr>key_order := note_keys (map fst data) (key_order st)\<rparr>"
  have "counted ?st0 \<and> list_all is_inconsistent (warnings ?st0)"
    using assms(2) by (simp add: counted_iff)
  then have "counted st1 \<and> list_all is_inconsistent (warnings st1)"
    by (rule fold_err_invariant [OF 1(3)]) (auto dest: visit_item_counted visit_item_warnings)
  with 1(4) show ?thesis by (simp add: missing_warnings_counted counted_iff)
qed

lemma fold_files_clean:
  assumes "fold_err (process_file fs) ps st = Inr st'"
    and "counted st \<and> list_all is_inconsistent (warnings st)"
  shows "counted st' \<and> list_all is_inconsistent (warnings st')"
  by (rule fold_err_invariant
      [where P = "\<lambda>t. counted t \<and> list_all is_inconsistent (warnings t)", OF assms])
    (rule process_file_clean)

lemma initial_facts:
  "num_tracks k initial []" "nn_tracks k initial []" "counted initial"
  "list_all is_inconsistent (warnings initial)" "key_order initial = []"
  by (simp_all add: initial_def num_tracks_def nn_tracks_def counted_def dd_get_def dict_has_def)

section \<open>Writing the result\<close>

lemma fdiv_nonzero: "n \<noteq> 0 \<Longrightarrow> fdiv x n = Inr (case x of Fin a \<Rightarrow> Fin (a / real n) | y \<Rightarrow> y)"
  by (simp add: fdiv_def)

lemma emit_fields_Cons:
  "emit_fields st n (key # keys) (res, ws) =
   emit_fields st n keys
     ((case field_out st key of Some v \<Rightarrow> dict_set res key v | None \<Rightarrow> res),
      (if dict_has (sums_dict st) key \<and> dd_get (counts st) key 0 \<noteq> 0 \<and>
          dd_get (counts st) key 0 \<noteq> n
       then ws @ [Coverage key (dd_get (counts st) key 0) n] else ws))"
  by (simp add: Let_def fdiv_nonzero field_out_def split: option.splits)

lemma emit_fields_result:
  "emit_fields st n keys (res, ws) = Inr (res', ws') \<Longrightarrow>
   map_of res' k =
     (if k \<in> set keys then (case field_out st k of Some v \<Rightarrow> Some v | None \<Rightarrow> map_of res k)
      else map_of res k)"
proof (induction keys arbitrary: res ws)
  case Nil
  then show ?case by simp
next
  case (Cons key keys)
  from Cons.prems have "map_of res' k =
     (if k \<in> set keys
      then (case field_out st k of Some v \<Rightarrow> Some v
            | None \<Rightarrow> map_of (case field_out st key of Some v \<Rightarrow> dict_set res key v | None \<Rightarrow> res) k)
      else map_of (case field_out st key of Some v \<Rightarrow> dict_set res key v | None \<Rightarrow> res) k)"
    unfolding emit_fields_Cons by (rule Cons.IH)
  then show ?case
    by (auto simp: map_of_dict_set split: option.splits if_splits)
qed

lemma emit_fields_warnings:
  "emit_fields st n keys (res, ws) = Inr (res', ws') \<Longrightarrow>
   ws' = ws @ map (\<lambda>k. Coverage k (dd_get (counts st) k 0) n)
              (filter (\<lambda>k. dict_has (sums_dict st) k \<and> dd_get (counts st) k 0 \<noteq> 0 \<and>
                            dd_get (counts st) k 0 \<noteq> n) keys)"
proof (induction keys arbitrary: res ws)
  case Nil
  then show ?case by simp
next
  case (Cons key keys)
  from Cons.prems show ?case
    unfolding emit_fields_Cons by (auto dest!: Cons.IH)
qed

lemma emit_fields_total: "\<exists>r. emit_fields st n keys acc = Inr r"
proof (induction keys arbitrary: acc)
  case Nil
  show ?case by simp
next
  case (Cons key keys)
  obtain res ws where "acc = (res, ws)" by (cases acc)
  with Cons show ?case
    unfolding emit_fields_Cons by (simp only: emit_fields_Cons)
qed

lemma emit_rest_unchanged:
  "emit_rest cnts items res = Inr res' \<Longrightarrow>
   map_of res k \<noteq> None \<or> k \<notin> fst ` set items \<or> dd_get cnts k 0 = 0 \<Longrightarrow>
   map_of res' k = map_of res k"
proof (induction items arbitrary: res)
  case Nil
  then show ?case by simp
next
  case (Cons item items)
  obtain key t where item: "item = (key, t)" by (cases item)
  show ?case
  proof (cases "\<not> dict_has res key \<and> dd_get cnts key 0 \<noteq> 0")
    case True
    with Cons.prems(1) have rest: "emit_rest cnts items (dict_set res key (JNum
        (case t of Fin a \<Rightarrow> Fin (a / real (dd_get cnts key 0)) | y \<Rightarrow> y))) = Inr res'"
      by (simp add: item fdiv_nonzero)
    from True Cons.prems(2) have "key \<noteq> k" by (auto simp: item dict_has_def)
    with Cons.IH [OF rest] Cons.prems(2) show ?thesis
      by (auto simp: item map_of_dict_set)
  next
    case False
    with Cons.prems(1) have rest: "emit_rest cnts items res = Inr res'"
      by (auto simp: item)
    with Cons.IH [OF rest] Cons.prems(2) show ?thesis
      by (auto simp: item)
  qed
qed

lemma emit_rest_total: "\<exists>r. emit_rest cnts items res = Inr r"
proof (induction items arbitrary: res)
  case Nil
  show ?case by simp
next
  case (Cons item items)
  obtain key t where "item = (key, t)" by (cases item)
  with Cons show ?case
    by (auto simp: fdiv_nonzero)
qed

lemma average_group_cases:
  assumes "average_group fs files = Inr (result, ws)" and "files \<noteq> []"
  obtains st res res' where
    "fold_err (process_file fs) (sort files) initial = Inr st"
    "emit_fields st (length files) (key_order st) ([], warnings st) = Inr (res, ws)"
    "emit_rest (counts st) (sums_dict st) res = Inr res'"
    "result = dict_set res' ''number of runs'' (JInt (int (length files)))"
  using assms by (auto simp: average_group_def Let_def split: sum.splits)

section \<open>The result and the warnings of average_group, field by field\<close>

lemma mset_map_filter:
  "mset xs = mset ys \<Longrightarrow> mset (List.map_filter f xs) = mset (List.map_filter f ys)"
  by (simp add: List.map_filter_def)

lemma mset_occurrences: "mset ps = mset qs \<Longrightarrow> mset (occurrences fs k ps) = mset (occurrences fs k qs)"
  unfolding occurrences_def by (rule mset_map_filter)

lemma mset_numeric_values:
  assumes "mset ps = mset qs"
  shows "mset (numeric_values fs k ps) = mset (numeric_values fs k qs)"
proof -
  have "mset (map snd (occurrences fs k ps)) = mset (map snd (occurrences fs k qs))"
    using mset_occurrences [OF assms, of fs k] by simp
  then show ?thesis unfolding numeric_values_def by (rule mset_map_filter)
qed

lemma numeric_values_sort:
  "sum_list (numeric_values fs k (sort ps)) = sum_list (numeric_values fs k ps)"
  "length (numeric_values fs k (sort ps)) = length (numeric_values fs k ps)"
proof -
  have m: "mset (numeric_values fs k (sort ps)) = mset (numeric_values fs k ps)"
    by (rule mset_numeric_values) simp
  show "sum_list (numeric_values fs k (sort ps)) = sum_list (numeric_values fs k ps)"
    using arg_cong [OF m, of sum_mset] by (simp add: sum_mset_sum_list)
  show "length (numeric_values fs k (sort ps)) = length (numeric_values fs k ps)"
    using arg_cong [OF m, of size] by simp
qed

lemma occurrences_split:
  "(occurrences fs k ps = []) = (numeric_values fs k ps = [] \<and> other_occurrences fs k ps = [])"
proof (induction ps)
  case Nil
  show ?case by (simp add: occurrences_def numeric_values_def other_occurrences_def)
next
  case (Cons p ps)
  have "(occurrences fs k [p] = []) = (numeric_values fs k [p] = [] \<and> other_occurrences fs k [p] = [])"
    by (auto simp: occurrences_def numeric_values_def other_occurrences_def split: option.splits)
  with Cons show ?case
    unfolding occurrences_Cons [of fs k p ps] numeric_values_Cons [of fs k p ps]
      other_occurrences_Cons [of fs k p ps] by auto
qed



text \<open>The state after the loop, seen from one field.\<close>

lemma final_state:
  assumes "fold_err (process_file fs) ps initial = Inr st"
  shows "num_tracks k st (numeric_values fs k ps)"
    and "nn_tracks k st (other_occurrences fs k ps)"
    and "(k \<in> set (key_order st)) = (occurrences fs k ps \<noteq> [])"
    and "counted st" and "list_all is_inconsistent (warnings st)"
    and "distinct (key_order st)"
proof -
  show "num_tracks k st (numeric_values fs k ps)"
    using fold_files_num [OF assms initial_facts(1)] by simp
  show "nn_tracks k st (other_occurrences fs k ps)"
    using fold_files_nn [OF assms initial_facts(2)] by simp
  show "(k \<in> set (key_order st)) = (occurrences fs k ps \<noteq> [])"
    using fold_files_key_order [OF assms, of k] by (simp add: initial_facts(5))
  show "counted st" "list_all is_inconsistent (warnings st)"
    using fold_files_clean [OF assms] initial_facts(3,4) by simp_all
  show "distinct (key_order st)"
    using fold_files_distinct [OF assms] by (simp add: initial_facts(5))
qed

lemma field_out_final:
  assumes "fold_err (process_file fs) ps initial = Inr st"
  shows "field_out st k =
    (if numeric_values fs k ps \<noteq> []
     then Some (JNum (Fin (sum_list (numeric_values fs k ps) / real (length (numeric_values fs k ps)))))
     else (case other_occurrences fs k ps of [] \<Rightarrow> None | (p, v) # rest \<Rightarrow> Some v))"
  using final_state(1,2) [OF assms, of k]
  by (auto simp: field_out_def num_tracks_def nn_tracks_def)

lemma average_group_field:
  assumes "average_group fs files = Inr (result, ws)" and "files \<noteq> []"
    and "k \<noteq> ''number of runs''"
  shows "map_of result k =
    (if numeric_values fs k (sort files) \<noteq> []
     then Some (JNum (Fin (sum_list (numeric_values fs k (sort files)) /
                           real (length (numeric_values fs k (sort files))))))
     else (case other_occurrences fs k (sort files) of [] \<Rightarrow> None | (p, v) # rest \<Rightarrow> Some v))"
  using assms(1,2)
proof (cases rule: average_group_cases)
  case (1 st res res')
  have out: "field_out st k = (if numeric_values fs k (sort files) \<noteq> []
     then Some (JNum (Fin (sum_list (numeric_values fs k (sort files)) /
                           real (length (numeric_values fs k (sort files))))))
     else (case other_occurrences fs k (sort files) of [] \<Rightarrow> None | (p, v) # rest \<Rightarrow> Some v))"
    by (rule field_out_final [OF 1(1)])
  have keys: "(k \<in> set (key_order st)) = (occurrences fs k (sort files) \<noteq> [])"
    by (rule final_state(3) [OF 1(1)])
  have res: "map_of res k = (if k \<in> set (key_order st) then field_out st k else None)"
    using emit_fields_result [OF 1(2), of k] by (simp split: option.splits)
  have "map_of res k \<noteq> None \<or> k \<notin> fst ` set (sums_dict st) \<or> dd_get (counts st) k 0 = 0"
  proof (cases "numeric_values fs k (sort files) = []")
    case True
    with final_state(1) [OF 1(1), of k] show ?thesis
      by (simp add: num_tracks_def dict_has_def map_of_eq_None_iff)
  next
    case False
    with keys have "k \<in> set (key_order st)" by (simp add: occurrences_split)
    with res out False show ?thesis by simp
  qed
  then have "map_of res' k = map_of res k" by (rule emit_rest_unchanged [OF 1(3)])
  with res out keys assms(3) 1(4) show ?thesis
    by (auto simp: map_of_dict_set occurrences_split split: list.splits)
qed

lemma average_group_warnings:
  assumes "average_group fs files = Inr (result, ws)" and "files \<noteq> []"
  shows "inconsistent_names k ws = conflicts (other_occurrences fs k (sort files))"
    and "(Coverage k c n \<in> set ws) =
         (c = length (numeric_values fs k (sort files)) \<and> n = length files \<and> c \<noteq> 0 \<and> c \<noteq> n)"
    and "MissingNumeric k name \<notin> set ws"
  using assms
proof (atomize (full), cases rule: average_group_cases)
  case (1 st res res')
  let ?cov = "map (\<lambda>k. Coverage k (dd_get (counts st) k 0) (length files))
      (filter (\<lambda>k. dict_has (sums_dict st) k \<and> dd_get (counts st) k 0 \<noteq> 0 \<and>
                    dd_get (counts st) k 0 \<noteq> length files) (key_order st))"
  have ws: "ws = warnings st @ ?cov"
    using emit_fields_warnings [OF 1(2)] by simp
  have inc: "list_all is_inconsistent (warnings st)" by (rule final_state(5) [OF 1(1)])
  have "inconsistent_names k ?cov = []"
  proof -
    have "inconsistent_names k (map (\<lambda>k. Coverage k (f k) m) ks) = []" for f m ks
      by (induction ks) auto
    then show ?thesis .
  qed
  then have a: "inconsistent_names k ws = conflicts (other_occurrences fs k (sort files))"
    using final_state(2) [OF 1(1), of k] by (simp add: ws inconsistent_names_append nn_tracks_def)
  have no_cov: "Coverage k c n \<notin> set (warnings st)" and no_miss: "MissingNumeric k name \<notin> set (warnings st)"
    using inc by (auto simp: list_all_iff)
  have num: "num_tracks k st (numeric_values fs k (sort files))" by (rule final_state(1) [OF 1(1)])
  have keys: "(k \<in> set (key_order st)) = (occurrences fs k (sort files) \<noteq> [])"
    by (rule final_state(3) [OF 1(1)])
  have b: "(Coverage k c n \<in> set ws) =
         (c = length (numeric_values fs k (sort files)) \<and> n = length files \<and> c \<noteq> 0 \<and> c \<noteq> n)"
    using no_cov num keys by (auto simp: ws num_tracks_def occurrences_split)
  have c: "MissingNumeric k name \<notin> set ws"
    using no_miss by (auto simp: ws)
  from a b c show "inconsistent_names k ws = conflicts (other_occurrences fs k (sort files)) \<and>
    (Coverage k c n \<in> set ws) =
         (c = length (numeric_values fs k (sort files)) \<and> n = length files \<and> c \<noteq> 0 \<and> c \<noteq> n) \<and>
    MissingNumeric k name \<notin> set ws" by simp
qed

section \<open>Readable cohorts are averaged without an error\<close>

lemma fold_err_total:
  "(\<And>x s. x \<in> set xs \<Longrightarrow> P s \<Longrightarrow> \<exists>s'. f x s = Inr s' \<and> P s') \<Longrightarrow> P s \<Longrightarrow>
   \<exists>s'. fold_err f xs s = Inr s'"
proof (induction xs arbitrary: s)
  case Nil
  show ?case by simp
next
  case (Cons x xs)
  from Cons.prems(1) [of x s] Cons.prems(2) obtain t where t: "f x s = Inr t" "P t" by auto
  have "\<exists>s'. fold_err f xs t = Inr s'"
    by (rule Cons.IH [OF _ t(2)]) (auto intro: Cons.prems(1))
  with t show ?case by simp
qed

lemma set_dict_set: "set (dict_set d k v) \<subseteq> insert (k, v) (set d)"
  by (auto simp: dict_set_def split: if_splits)

lemma set_foldl_dict_set:
  "set (foldl (\<lambda>d (k, v). dict_set d k v) d ms) \<subseteq> set d \<union> set ms"
proof (induction ms arbitrary: d)
  case Nil
  show ?case by simp
next
  case (Cons m ms)
  obtain k v where m: "m = (k, v)" by (cases m)
  from Cons [of "dict_set d k v"] set_dict_set [of d k v] show ?case
    by (auto simp: m)
qed

lemma set_dict_of: "set (dict_of ms) \<subseteq> set ms"
  using set_foldl_dict_set [of "[]" ms] by (simp add: dict_of_def)

lemma is_number_convertible: "convertible v \<Longrightarrow> \<exists>b. is_number v = Inr b"
  by (cases v) (auto simp: is_number_def float_of_int_def)

lemma visit_item_total:
  assumes "convertible (snd item)"
  shows "\<exists>st'. visit_item name item st = Inr st'"
proof -
  obtain k v where item: "item = (k, v)" by (cases item)
  with assms obtain b where b: "is_number v = Inr b" using is_number_convertible by auto
  show ?thesis
  proof (cases b)
    case True
    with b have "is_number v = Inr True" by simp
    then obtain r where "float_py v = Inr (Fin r)" using is_number_True by blast
    with b True show ?thesis by (simp add: visit_item_def item)
  next
    case False
    with b show ?thesis by (simp add: visit_item_def item split: option.splits)
  qed
qed

lemma process_file_total:
  assumes "fs p = Object ms" and "list_all (\<lambda>(k, v). convertible v) ms"
  shows "\<exists>st'. process_file fs p st = Inr st'"
proof -
  have conv: "convertible (snd item)" if "item \<in> set (dict_of ms)" for item
  proof -
    from that set_dict_of [of ms] have "item \<in> set ms" by auto
    with assms(2) show ?thesis by (cases item) (auto simp: list_all_iff)
  qed
  have "\<exists>s'. fold_err (visit_item (path_name p)) (dict_of ms) s = Inr s'" for s
    by (rule fold_err_total [where P = "\<lambda>s. True"]) (auto intro: visit_item_total conv)
  then obtain s' where "fold_err (visit_item (path_name p)) (dict_of ms)
      (st\<lparr>key_order := note_keys (map fst (dict_of ms)) (key_order st)\<rparr>) = Inr s'"
    by blast
  then show ?thesis
    using assms(1) by (simp add: process_file_def read_json_def)
qed

lemma average_group_total:
  assumes "readable fs files"
  shows "\<exists>result ws. average_group fs files = Inr (result, ws)"
proof -
  have "\<exists>s'. process_file fs p s = Inr s'" if "p \<in> set (sort files)" for p s
  proof -
    from that assms have
      "case fs p of Object ms \<Rightarrow> list_all (\<lambda>(k, v). convertible v) ms | _ \<Rightarrow> False"
      by (simp add: readable_def list_all_iff)
    then obtain ms where "fs p = Object ms" "list_all (\<lambda>(k, v). convertible v) ms"
      by (cases "fs p") auto
    then show ?thesis by (rule process_file_total)
  qed
  then have "\<exists>st. fold_err (process_file fs) (sort files) initial = Inr st"
    by (intro fold_err_total [where P = "\<lambda>s. True"]) auto
  then obtain st where st: "fold_err (process_file fs) (sort files) initial = Inr st" ..
  obtain res ws where e: "emit_fields st (length files) (key_order st) ([], warnings st) = Inr (res, ws)"
    using emit_fields_total [of st "length files" "key_order st" "([], warnings st)"] by auto
  obtain res' where "emit_rest (counts st) (sums_dict st) res = Inr res'"
    using emit_rest_total by blast
  with st e show ?thesis by (simp add: average_group_def)
qed

section \<open>The claims about average_group\<close>


lemma numeric_values_sort_Nil:
  "(numeric_values fs key (sort files) = []) = (numeric_values fs key files = [])"
  using numeric_values_sort(2) [of fs key files] by (metis length_0_conv)




lemma other_occurrences_nonempty: "other_occurrences fs key (sort files) \<noteq> [] \<Longrightarrow> files \<noteq> []"
  by (auto simp: other_occurrences_Nil)

text \<open>
  Claim C2. The record \<open>average_group\<close> returns for a non-empty cohort holds the number of
  records under \<open>number of runs\<close>, whatever the records hold under that name; a cohort
  that can be read is averaged without an error.
\<close>

theorem run_count_invariant:
  assumes "files \<noteq> []"
  shows "(readable fs files \<longrightarrow> (\<exists>result ws. average_group fs files = Inr (result, ws))) \<and>
    (\<forall>result ws. average_group fs files = Inr (result, ws) \<longrightarrow>
       map_of result ''number of runs'' = Some (JInt (int (length files))))"
proof (intro conjI allI impI)
  assume "readable fs files"
  then show "\<exists>result ws. average_group fs files = Inr (result, ws)"
    by (rule average_group_total)
next
  fix result ws
  assume "average_group fs files = Inr (result, ws)"
  then show "map_of result ''number of runs'' = Some (JInt (int (length files)))"
    using assms by (cases rule: average_group_cases) (simp_all add: map_of_dict_set)
qed

theorem run_count_invariant_witness:
  "[run3, run1, run2] \<noteq> [] \<and> readable cohort_fs [run3, run1, run2] \<and>
   record_field cohort_fs run3 ''number of runs'' = Some (JInt 7) \<and>
   average_group cohort_fs [run3, run1, run2] =
     Inr ([(''avg_input_tokens'', JNum (Fin 150)), (''status'', JStr ''ok''),
           (''latency_ms'', JNum (Fin 15)), (''number of runs'', JInt 3)],
          [Inconsistent ''status'' ''m_id2_summary.json'', Coverage ''latency_ms'' 2 3,
           Coverage ''number of runs'' 1 3]) \<and>
   map_of [(''avg_input_tokens'', JNum (Fin 150)), (''status'', JStr ''ok''),
           (''latency_ms'', JNum (Fin 15)), (''number of runs'', JInt 3)] ''number of runs'' =
     Some (JInt (int (length [run3, run1, run2])))"
proof -
  have ne: "[run3, run1, run2] \<noteq> []" by simp
  have r: "readable cohort_fs [run3, run1, run2]" by code_simp
  have f: "record_field cohort_fs run3 ''number of runs'' = Some (JInt 7)" by code_simp
  have a: "average_group cohort_fs [run3, run1, run2] =
     Inr ([(''avg_input_tokens'', JNum (Fin 150)), (''status'', JStr ''ok''),
           (''latency_ms'', JNum (Fin 15)), (''number of runs'', JInt 3)],
          [Inconsistent ''status'' ''m_id2_summary.json'', Coverage ''latency_ms'' 2 3,
           Coverage ''number of runs'' 1 3])"
    by code_simp
  from run_count_invariant [OF ne, of cohort_fs] a
  have "map_of [(''avg_input_tokens'', JNum (Fin 150)), (''status'', JStr ''ok''),
           (''latency_ms'', JNum (Fin 15)), (''number of runs'', JInt 3)] ''number of runs'' =
     Some (JInt (int (length [run3, run1, run2])))"
    by blast
  with ne r f a show ?thesis by blast
qed

text \<open>
  Claim C3, amended. Let a field have values that are not finite numbers, the first of
  them, in the order of processing, being \<open>first\<close>. Then the consistency warnings of the
  field are exactly one for each later such occurrence that differs from \<open>first\<close> under
  \<open>!=\<close>, each carrying the name of its file, in order; handling them raises nothing (a
  cohort that can be read is averaged without an error); and the returned record holds
  \<open>first\<close> for the field provided the field has no finite numeric occurrence and is not
  \<open>number of runs\<close>.
\<close>

theorem first_seen_retained:
  assumes "other_occurrences fs key (sort files) = (p, first) # rest"
  shows "(readable fs files \<longrightarrow> (\<exists>result ws. average_group fs files = Inr (result, ws))) \<and>
    (\<forall>result ws. average_group fs files = Inr (result, ws) \<longrightarrow>
       inconsistent_names key ws =
         map (\<lambda>(q, v). path_name q) (filter (\<lambda>(q, v). py_ne v first) rest) \<and>
       (key \<noteq> ''number of runs'' \<and> numeric_values fs key files = [] \<longrightarrow>
          map_of result key = Some first))"
proof (intro conjI allI impI)
  assume "readable fs files"
  then show "\<exists>result ws. average_group fs files = Inr (result, ws)"
    by (rule average_group_total)
next
  fix result ws
  assume ag: "average_group fs files = Inr (result, ws)"
  have ne: "files \<noteq> []" using assms by (intro other_occurrences_nonempty [of fs key]) simp
  show "inconsistent_names key ws =
         map (\<lambda>(q, v). path_name q) (filter (\<lambda>(q, v). py_ne v first) rest)"
    using average_group_warnings(1) [OF ag ne, of key] assms by simp
  {
    assume "key \<noteq> ''number of runs'' \<and> numeric_values fs key files = []"
    then show "map_of result key = Some first"
      using average_group_field [OF ag ne, of key] assms
      by (simp add: numeric_values_sort_Nil)
  }
qed

theorem first_seen_retained_witness:
  "other_occurrences cohort_fs ''status'' (sort [run3, run1, run2]) =
     (run1, JStr ''ok'') # [(run2, JStr ''retry''), (run3, JStr ''ok'')] \<and>
   readable cohort_fs [run3, run1, run2] \<and>
   numeric_values cohort_fs ''status'' [run3, run1, run2] = [] \<and>
   average_group cohort_fs [run3, run1, run2] =
     Inr ([(''avg_input_tokens'', JNum (Fin 150)), (''status'', JStr ''ok''),
           (''latency_ms'', JNum (Fin 15)), (''number of runs'', JInt 3)],
          [Inconsistent ''status'' ''m_id2_summary.json'', Coverage ''latency_ms'' 2 3,
           Coverage ''number of runs'' 1 3]) \<and>
   inconsistent_names ''status''
     [Inconsistent ''status'' ''m_id2_summary.json'', Coverage ''latency_ms'' 2 3,
      Coverage ''number of runs'' 1 3] = [''m_id2_summary.json''] \<and>
   map_of [(''avg_input_tokens'', JNum (Fin 150)), (''status'', JStr ''ok''),
           (''latency_ms'', JNum (Fin 15)), (''number of runs'', JInt 3)] ''status'' =
     Some (JStr ''ok'')"
proof -
  have o: "other_occurrences cohort_fs ''status'' (sort [run3, run1, run2]) =
     (run1, JStr ''ok'') # [(run2, JStr ''retry''), (run3, JStr ''ok'')]"
    by code_simp
  have r: "readable cohort_fs [run3, run1, run2]" by code_simp
  have n: "numeric_values cohort_fs ''status'' [run3, run1, run2] = []" by code_simp
  have a: "average_group cohort_fs [run3, run1, run2] =
     Inr ([(''avg_input_tokens'', JNum (Fin 150)), (''status'', JStr ''ok''),
           (''latency_ms'', JNum (Fin 15)), (''number of runs'', JInt 3)],
          [Inconsistent ''status'' ''m_id2_summary.json'', Coverage ''latency_ms'' 2 3,
           Coverage ''number of runs'' 1 3])"
    by code_simp
  have k: "''status'' \<noteq> ''number of runs''" by simp
  have c: "map (\<lambda>(q, v). path_name q)
             (filter (\<lambda>(q, v). py_ne v (JStr ''ok'')) [(run2, JStr ''retry''), (run3, JStr ''ok'')]) =
           [''m_id2_summary.json'']"
    by code_simp
  from first_seen_retained [OF o] a n k
  have "inconsistent_names ''status''
     [Inconsistent ''status'' ''m_id2_summary.json'', Coverage ''latency_ms'' 2 3,
      Coverage ''number of runs'' 1 3] =
       map (\<lambda>(q, v). path_name q)
         (filter (\<lambda>(q, v). py_ne v (JStr ''ok'')) [(run2, JStr ''retry''), (run3, JStr ''ok'')])"
    and "map_of [(''avg_input_tokens'', JNum (Fin 150)), (''status'', JStr ''ok''),
           (''latency_ms'', JNum (Fin 15)), (''number of runs'', JInt 3)] ''status'' =
     Some (JStr ''ok'')"
    by blast+
  with o r n a c show ?thesis by (simp only: simp_thms)
qed

theorem first_seen_counterexample:
  "other_occurrences mixed_fs ''x'' (sort [run3, run1, run2]) =
     [(run1, JStr ''ok''), (run2, JStr ''retry'')] \<and>
   average_group mixed_fs [run3, run1, run2] =
     Inr ([(''x'', JNum (Fin 3)), (''flag'', JBool True), (''number of runs'', JInt 3)],
          [Inconsistent ''x'' ''m_id2_summary.json'', Coverage ''x'' 1 3]) \<and>
   map_of [(''x'', JNum (Fin 3)), (''flag'', JBool True), (''number of runs'', JInt 3)] ''x'' \<noteq>
     Some (JStr ''ok'')"
  by (intro conjI; code_simp)

lemma map_filter_Nil_iff: "(List.map_filter f xs = []) = (\<forall>x\<in>set xs. f x = None)"
  by (induction xs) (auto split: option.splits)

lemma other_occurrences_all:
  assumes "numeric_values fs k ps = []"
  shows "other_occurrences fs k ps = occurrences fs k ps"
proof -
  from assms have "\<forall>x\<in>set (occurrences fs k ps). finite_value (snd x) = None"
    by (simp add: numeric_values_def map_filter_Nil_iff)
  then show ?thesis
    by (auto simp: other_occurrences_def filter_id_conv)
qed

lemma first_occurrence:
  "(case occurrences fs k ps of [] \<Rightarrow> None | (p, v) # rest \<Rightarrow> Some v) =
   (case find (\<lambda>p. record_field fs p k \<noteq> None) ps of None \<Rightarrow> None | Some p \<Rightarrow> record_field fs p k)"
  by (induction ps) (auto simp: occurrences_def split: option.splits)

lemma find_sorted_least:
  "sorted xs \<Longrightarrow> find P xs = Some p \<Longrightarrow> p \<in> set xs \<and> P p \<and> (\<forall>q\<in>set xs. P q \<longrightarrow> p \<le> q)"
  by (induction xs) (auto split: if_splits)

lemma sort_permuted: "mset xs = mset ys \<Longrightarrow> sort xs = sort (ys :: 'a :: linorder list)"
  by (rule properties_for_sort) simp_all

lemma average_group_permuted:
  assumes "mset files' = mset files"
  shows "average_group fs files' = average_group fs files"
proof -
  have "sort files' = sort files" using assms by (rule sort_permuted)
  moreover have "length files' = length files" using assms by (rule mset_eq_length)
  moreover have "(files' = []) = (files = [])" using assms by (metis mset_zero_iff)
  ultimately show ?thesis unfolding average_group_def by (simp only:)
qed

text \<open>
  Claim C8, amended. \<open>average_group\<close> returns the same record and the same warnings for
  every arrangement of the list of files. The files are processed in the order of their
  paths, so a field that has no finite numeric occurrence and is not \<open>number of runs\<close>
  holds in the result the value it has in the least path that carries it.
\<close>

theorem order_independent:
  assumes "mset files' = mset files"
  shows "average_group fs files' = average_group fs files \<and>
    (\<forall>result ws key. average_group fs files = Inr (result, ws) \<and> key \<noteq> ''number of runs'' \<and>
         numeric_values fs key files = [] \<longrightarrow>
       map_of result key =
         (case first_carrier fs key files of None \<Rightarrow> None | Some p \<Rightarrow> record_field fs p key)) \<and>
    (\<forall>key p. first_carrier fs key files = Some p \<longrightarrow>
       p \<in> set files \<and> record_field fs p key \<noteq> None \<and>
       (\<forall>q\<in>set files. record_field fs q key \<noteq> None \<longrightarrow> p \<le> q))"
proof -
  have perm: "average_group fs files' = average_group fs files"
    using assms by (rule average_group_permuted)
  have val: "map_of result key =
         (case first_carrier fs key files of None \<Rightarrow> None | Some p \<Rightarrow> record_field fs p key)"
    if a: "average_group fs files = Inr (result, ws) \<and> key \<noteq> ''number of runs'' \<and>
         numeric_values fs key files = []" for result ws key
  proof (cases "files = []")
    case True
    with a show ?thesis by (simp add: average_group_def first_carrier_def)
  next
    case False
    from a have n: "numeric_values fs key (sort files) = []"
      by (simp add: numeric_values_sort_Nil)
    from a False average_group_field [of fs files result ws key]
    have "map_of result key =
        (case other_occurrences fs key (sort files) of [] \<Rightarrow> None | (p, v) # rest \<Rightarrow> Some v)"
      by (simp add: n)
    then show ?thesis
      by (simp add: other_occurrences_all [OF n] first_occurrence first_carrier_def)
  qed
  have least: "p \<in> set files \<and> record_field fs p key \<noteq> None \<and>
       (\<forall>q\<in>set files. record_field fs q key \<noteq> None \<longrightarrow> p \<le> q)"
    if "first_carrier fs key files = Some p" for key p
  proof -
    from that have "p \<in> set (sort files) \<and> record_field fs p key \<noteq> None \<and>
       (\<forall>q\<in>set (sort files). record_field fs q key \<noteq> None \<longrightarrow> p \<le> q)"
      unfolding first_carrier_def by (intro find_sorted_least) simp_all
    then show ?thesis by simp
  qed
  show ?thesis
    apply (rule conjI, rule perm)
    apply (rule conjI; intro allI impI)
     apply (erule val)
    apply (erule least)
    done
qed

theorem order_independent_witness:
  "mset [run3, run1, run2] = mset [run1, run2, run3] \<and>
   average_group cohort_fs [run3, run1, run2] = average_group cohort_fs [run1, run2, run3] \<and>
   average_group cohort_fs [run1, run2, run3] =
     Inr ([(''avg_input_tokens'', JNum (Fin 150)), (''status'', JStr ''ok''),
           (''latency_ms'', JNum (Fin 15)), (''number of runs'', JInt 3)],
          [Inconsistent ''status'' ''m_id2_summary.json'', Coverage ''latency_ms'' 2 3,
           Coverage ''number of runs'' 1 3]) \<and>
   numeric_values cohort_fs ''status'' [run1, run2, run3] = [] \<and>
   first_carrier cohort_fs ''status'' [run1, run2, run3] = Some run1 \<and>
   record_field cohort_fs run1 ''status'' = Some (JStr ''ok'') \<and>
   map_of [(''avg_input_tokens'', JNum (Fin 150)), (''status'', JStr ''ok''),
           (''latency_ms'', JNum (Fin 15)), (''number of runs'', JInt 3)] ''status'' =
     Some (JStr ''ok'') \<and> run1 \<le> run2 \<and> run1 \<le> run3"
proof -
  have m: "mset [run3, run1, run2] = mset [run1, run2, run3]" by simp
  have a: "average_group cohort_fs [run1, run2, run3] =
     Inr ([(''avg_input_tokens'', JNum (Fin 150)), (''status'', JStr ''ok''),
           (''latency_ms'', JNum (Fin 15)), (''number of runs'', JInt 3)],
          [Inconsistent ''status'' ''m_id2_summary.json'', Coverage ''latency_ms'' 2 3,
           Coverage ''number of runs'' 1 3])"
    by code_simp
  have n: "numeric_values cohort_fs ''status'' [run1, run2, run3] = []" by code_simp
  have c: "first_carrier cohort_fs ''status'' [run1, run2, run3] = Some run1" by code_simp
  have f: "record_field cohort_fs run1 ''status'' = Some (JStr ''ok'')" by code_simp
  have f2: "record_field cohort_fs run2 ''status'' \<noteq> None" by code_simp
  have f3: "record_field cohort_fs run3 ''status'' \<noteq> None" by code_simp
  have k: "''status'' \<noteq> ''number of runs''" by simp
  note t = order_independent [OF m, of cohort_fs]
  note t1 = t [THEN conjunct1]
  note t2 = t [THEN conjunct2, THEN conjunct1, rule_format, OF conjI [OF a conjI [OF k n]]]
  note t3 = t [THEN conjunct2, THEN conjunct2, rule_format, OF c]
  have 2: "map_of [(''avg_input_tokens'', JNum (Fin 150)), (''status'', JStr ''ok''),
           (''latency_ms'', JNum (Fin 15)), (''number of runs'', JInt 3)] ''status'' =
     Some (JStr ''ok'')"
    using t2 by (simp only: c f option.case)
  from t3 have least: "\<forall>q\<in>set [run1, run2, run3]. record_field cohort_fs q ''status'' \<noteq> None \<longrightarrow> run1 \<le> q"
    by (elim conjE)
  have 3: "run1 \<le> run2" using least [rule_format, of run2] f2 by simp
  have 4: "run1 \<le> run3" using least [rule_format, of run3] f3 by simp
  from m t1 a n c f 2 3 4 show ?thesis by (intro conjI)
qed

theorem order_independent_counterexample:
  "numeric_values (constant_fs ''number of runs'' (JStr ''x'')) ''number of runs'' [run1] = [] \<and>
   first_carrier (constant_fs ''number of runs'' (JStr ''x'')) ''number of runs'' [run1] = Some run1 \<and>
   record_field (constant_fs ''number of runs'' (JStr ''x'')) run1 ''number of runs'' =
     Some (JStr ''x'') \<and>
   average_group (constant_fs ''number of runs'' (JStr ''x'')) [run1] =
     Inr ([(''number of runs'', JInt 1)], []) \<and>
   map_of [(''number of runs'', JInt 1)] ''number of runs'' \<noteq> Some (JStr ''x'')"
  by (intro conjI; code_simp)




lemma average_group_run_count:
  assumes "average_group fs files = Inr (result, ws)" and "files \<noteq> []"
  shows "map_of result ''number of runs'' = Some (JInt (int (length files)))"
  using assms by (cases rule: average_group_cases) (simp add: map_of_dict_set)

text \<open>
  Claim C9. After any number of files every key of \<open>sums\<close> has a count of at least one,
  so the check at the end of each file finds no key to report; no warning of the form
  \<open>Numeric key ... missing\<close> is returned, and every key of \<open>sums\<close> is in the result: the
  branch for a zero count drops none.
\<close>

theorem zero_count_unreachable:
  "(\<forall>n st. fold_err (process_file fs) (take n (sort files)) initial = Inr st \<longrightarrow>
      (\<forall>key. dict_has (sums_dict st) key \<longrightarrow> 0 < dd_get (counts st) key 0) \<and>
      missing_warnings name st = [] \<and>
      (\<forall>key name'. MissingNumeric key name' \<notin> set (warnings st))) \<and>
   (\<forall>result ws st. average_group fs files = Inr (result, ws) \<and>
      fold_err (process_file fs) (sort files) initial = Inr st \<longrightarrow>
      (\<forall>key name'. MissingNumeric key name' \<notin> set ws) \<and>
      (\<forall>key. dict_has (sums_dict st) key \<and> files \<noteq> [] \<longrightarrow> dict_has result key))"
proof (intro conjI allI impI)
  fix n st
  assume st: "fold_err (process_file fs) (take n (sort files)) initial = Inr st"
  have c: "counted st" by (rule final_state(4) [OF st])
  have w: "list_all is_inconsistent (warnings st)" by (rule final_state(5) [OF st])
  {
    fix key assume "dict_has (sums_dict st) key"
    with c show "0 < dd_get (counts st) key 0" by (simp add: counted_iff)
  }
  show "missing_warnings name st = []" using c by (rule missing_warnings_counted)
  {
    fix key name'
    show "MissingNumeric key name' \<notin> set (warnings st)"
      using w by (auto simp: list_all_iff)
  }
next
  fix result ws st
  assume a: "average_group fs files = Inr (result, ws) \<and>
      fold_err (process_file fs) (sort files) initial = Inr st"
  {
    fix key name'
    show "MissingNumeric key name' \<notin> set ws"
    proof (cases "files = []")
      case True
      with a show ?thesis by (simp add: average_group_def)
    next
      case False
      with a show ?thesis using average_group_warnings(3) by blast
    qed
  }
  {
    fix key
    assume k: "dict_has (sums_dict st) key \<and> files \<noteq> []"
    with a final_state(1) [of fs "sort files" st key]
    have v: "numeric_values fs key (sort files) \<noteq> []" by (simp add: num_tracks_def)
    show "dict_has result key"
    proof (cases "key = ''number of runs''")
      case True
      from a k have "map_of result ''number of runs'' = Some (JInt (int (length files)))"
        by (intro average_group_run_count [of fs files result ws]) simp_all
      with True show ?thesis by (simp add: dict_has_def)
    next
      case False
      from a k have "average_group fs files = Inr (result, ws)" "files \<noteq> []" by simp_all
      from average_group_field [OF this False] v show ?thesis by (simp add: dict_has_def)
    qed
  }
qed

theorem zero_count_unreachable_witness:
  "fold_err (process_file cohort_fs) (take 2 (sort [run3, run1, run2])) initial =
     Inr \<lparr>sums_dict = [(''avg_input_tokens'', Fin 300), (''latency_ms'', Fin 30)],
          counts = [(''avg_input_tokens'', 2), (''latency_ms'', 2)],
          non_numeric = [(''status'', JStr ''ok'')],
          key_order = [''avg_input_tokens'', ''status'', ''latency_ms''],
          warnings = [Inconsistent ''status'' ''m_id2_summary.json'']\<rparr> \<and>
   dict_has [(''avg_input_tokens'', Fin 300), (''latency_ms'', Fin 30)] ''latency_ms'' \<and>
   0 < dd_get [(''avg_input_tokens'', 2), (''latency_ms'', 2 :: nat)] ''latency_ms'' 0 \<and>
   missing_warnings ''m_id2_summary.json''
     \<lparr>sums_dict = [(''avg_input_tokens'', Fin 300), (''latency_ms'', Fin 30)],
      counts = [(''avg_input_tokens'', 2), (''latency_ms'', 2)],
      non_numeric = [(''status'', JStr ''ok'')],
      key_order = [''avg_input_tokens'', ''status'', ''latency_ms''],
      warnings = [Inconsistent ''status'' ''m_id2_summary.json'']\<rparr> = []"
proof -
  let ?st = "\<lparr>sums_dict = [(''avg_input_tokens'', Fin 300), (''latency_ms'', Fin 30)],
          counts = [(''avg_input_tokens'', 2), (''latency_ms'', 2)],
          non_numeric = [(''status'', JStr ''ok'')],
          key_order = [''avg_input_tokens'', ''status'', ''latency_ms''],
          warnings = [Inconsistent ''status'' ''m_id2_summary.json'']\<rparr>"
  have s: "fold_err (process_file cohort_fs) (take 2 (sort [run3, run1, run2])) initial = Inr ?st"
    by code_simp
  have h: "dict_has (sums_dict ?st) ''latency_ms''" by code_simp
  note t = zero_count_unreachable [of cohort_fs "[run3, run1, run2]" "''m_id2_summary.json''",
      THEN conjunct1, rule_format, OF s]
  have 1: "0 < dd_get (counts ?st) ''latency_ms'' 0"
    using t [THEN conjunct1, rule_format, OF h] .
  have 2: "missing_warnings ''m_id2_summary.json'' ?st = []"
    using t [THEN conjunct2, THEN conjunct1] .
  from s h 1 2 show ?thesis by simp
qed

section \<open>Grouping: the pattern and the cohorts\<close>

lemma first_some_None: "(first_some f ns = None) = (\<forall>n\<in>set ns. f n = None)"
  by (induction ns) (auto simp: first_some_def)

lemma first_some_unique:
  "n \<in> set ns \<Longrightarrow> f n = Some y \<Longrightarrow> (\<forall>m\<in>set ns. m \<noteq> n \<longrightarrow> f m = None) \<Longrightarrow>
   first_some f ns = Some y"
proof (induction ns)
  case Nil
  then show ?case by simp
next
  case (Cons a ns)
  show ?case
  proof (cases "a = n")
    case True
    with Cons.prems(2) show ?thesis by (simp add: first_some_def)
  next
    case False
    with Cons.prems have "f a = None" and "first_some f ns = Some y"
      by (auto intro: Cons.IH)
    then show ?thesis by (simp add: first_some_def)
  qed
qed

lemma first_some_SomeD: "first_some f ns = Some y \<Longrightarrow> \<exists>n\<in>set ns. f n = Some y"
  by (induction ns) (auto simp: first_some_def split: if_splits)

lemma takeWhile_token:
  "c \<notin> set tok \<Longrightarrow> takeWhile (\<lambda>x. x \<noteq> c) (tok @ c # rest) = tok"
  by (induction tok) auto

lemma last_sep_unique:
  assumes "xs @ c # ys = xs' @ c # ys'" and "c \<notin> set ys" and "c \<notin> set ys'"
  shows "xs = xs' \<and> ys = ys'"
proof -
  have "takeWhile (\<lambda>x. x \<noteq> c) (rev (xs @ c # ys)) = rev ys" if "c \<notin> set ys" for xs ys
    using takeWhile_token [of c "rev ys" "rev xs"] that by simp
  from this [OF assms(2), of xs] this [OF assms(3), of xs'] assms(1)
  have "ys = ys'" by simp
  with assms(1) show ?thesis by simp
qed

lemma take_takeWhile_set:
  "n \<le> length (takeWhile P s) \<Longrightarrow> \<forall>x\<in>set (take n s). P x"
proof -
  assume n: "n \<le> length (takeWhile P s)"
  have "take n (takeWhile P s) = take n (take (length (takeWhile P s)) s)"
    by (simp flip: takeWhile_eq_take)
  also have "\<dots> = take n s" using n by (simp add: min_def)
  finally have "take n s = take n (takeWhile P s)" by simp
  then have "set (take n s) \<subseteq> set (takeWhile P s)" by (simp add: set_take_subset)
  then show ?thesis by (auto dest: set_takeWhileD)
qed

lemma end_match:
  "(rx_match [Lit l, End] t \<noteq> None) = (t = l \<or> t = l @ [newline])"
  by (auto simp: prefix_def)

lemma tail_match_iff:
  "(rx_match tail_pattern s \<noteq> None) =
   (\<exists>tok. tok \<noteq> [] \<and> CHR ''_'' \<notin> set tok \<and>
      (s = ''_id'' @ tok @ ''_summary.json'' \<or> s = ''_id'' @ tok @ ''_summary.json'' @ [newline]))"
  (is "?l = ?r")
proof
  assume ?l
  then obtain r where s: "s = ''_id'' @ r"
    and m: "rx_match [Many1 (\<lambda>c. c \<noteq> CHR ''_''), Lit ''_summary.json'', End] r \<noteq> None"
    by (auto simp: tail_pattern_def prefix_def split: if_splits)
  from m obtain n where n: "1 \<le> n" "n \<le> length (takeWhile (\<lambda>c. c \<noteq> CHR ''_'') r)"
    and e: "rx_match [Lit ''_summary.json'', End] (drop n r) \<noteq> None"
    by (auto simp: first_some_None simp del: rx_match.simps(2,3))
  from e have d: "drop n r = ''_summary.json'' \<or> drop n r = ''_summary.json'' @ [newline]"
    by (simp only: end_match)
  have len: "n \<le> length r" using n(2) length_takeWhile_le [of "\<lambda>c. c \<noteq> CHR ''_''" r] by simp
  let ?tok = "take n r"
  have "?tok \<noteq> []" using n(1) len d by auto
  moreover have "CHR ''_'' \<notin> set ?tok" using take_takeWhile_set [OF n(2)] by auto
  moreover have "r = ?tok @ drop n r" by simp
  ultimately show ?r using d s by metis
next
  assume ?r
  then obtain tok where tok: "tok \<noteq> []" "CHR ''_'' \<notin> set tok"
    and s: "s = ''_id'' @ tok @ ''_summary.json'' \<or> s = ''_id'' @ tok @ ''_summary.json'' @ [newline]"
    by blast
  define rest where "rest = drop (length ''_id'' + length tok) s"
  from s have rest: "rest = ''_summary.json'' \<or> rest = ''_summary.json'' @ [newline]"
    and r: "drop (length ''_id'') s = tok @ rest" and p: "prefix ''_id'' s"
    by (auto simp: rest_def)
  from rest have "\<exists>u. rest = CHR ''_'' # u" by auto
  then obtain u where u: "rest = CHR ''_'' # u" ..
  have run: "takeWhile (\<lambda>c. c \<noteq> CHR ''_'') (tok @ rest) = tok"
    unfolding u by (rule takeWhile_token [OF tok(2)])
  have e: "rx_match [Lit ''_summary.json'', End] (drop (length tok) (tok @ rest)) \<noteq> None"
    using rest by (simp only: end_match append_eq_conv_conj drop_all order_refl drop_append
        diff_self_eq_0 drop_0 append_Nil) 
  have "length tok \<in> set (rev [1..<Suc (length (takeWhile (\<lambda>c. c \<noteq> CHR ''_'') (tok @ rest)))])"
    using tok(1) by (simp add: run Suc_le_eq)
  with e have "rx_match [Many1 (\<lambda>c. c \<noteq> CHR ''_''), Lit ''_summary.json'', End] (tok @ rest) \<noteq> None"
    by (simp only: rx_match.simps(4) first_some_None) (metis option.map_disc_iff)
  with p r show ?l
    by (simp only: tail_pattern_def rx_match.simps(2) if_True option.map_disc_iff
        not_False_eq_True)
qed

lemma shape_unique:
  assumes "key @ ''_id'' @ tok @ ''_summary.json'' = a @ ''_id'' @ tok' @ rest"
    and "rest = ''_summary.json'' \<or> rest = ''_summary.json'' @ [newline]"
    and "CHR ''_'' \<notin> set tok" and "CHR ''_'' \<notin> set tok'"
  shows "a = key \<and> tok' = tok \<and> rest = ''_summary.json''"
proof -
  have rest: "rest = ''_summary.json''"
  proof (rule ccontr)
    assume "rest \<noteq> ''_summary.json''"
    with assms(2) have r: "rest = ''_summary.json'' @ [newline]" by simp
    have "key @ ''_id'' @ tok @ ''_summary.json'' =
          (key @ ''_id'' @ tok @ ''_summary.jso'') @ [CHR ''n'']" by simp
    moreover have "a @ ''_id'' @ tok' @ rest = (a @ ''_id'' @ tok' @ ''_summary.json'') @ [newline]"
      by (simp add: r)
    ultimately have "(key @ ''_id'' @ tok @ ''_summary.jso'') @ [CHR ''n''] =
        (a @ ''_id'' @ tok' @ ''_summary.json'') @ [newline]"
      using assms(1) by (simp only:)
    then have "CHR ''n'' = newline" by (simp only: append1_eq_conv)
    then show False by (simp add: newline_def)
  qed
  with assms(1) have "(key @ ''_id'' @ tok) @ ''_summary.json'' = (a @ ''_id'' @ tok') @ ''_summary.json''"
    by simp
  then have "key @ ''_id'' @ tok = a @ ''_id'' @ tok'" by (simp only: append_same_eq)
  then have "key @ CHR ''_'' # (''id'' @ tok) = a @ CHR ''_'' # (''id'' @ tok')" by simp
  from last_sep_unique [OF this] assms(3,4) have "key = a \<and> ''id'' @ tok = ''id'' @ tok'"
    by simp
  with rest show ?thesis by simp
qed

lemma summary_prefix_shape:
  assumes "summary_shape key tok name"
  shows "summary_prefix name = Some key"
proof -
  let ?f = "\<lambda>n. map_option (Cons (take n name)) (rx_match tail_pattern (drop n name))"
  let ?ns = "rev [1..<Suc (length (takeWhile (\<lambda>c. c \<noteq> newline) name))]"
  from assms have name: "name = key @ ''_id'' @ tok @ ''_summary.json''"
    and key: "key \<noteq> []" "newline \<notin> set key" and tok: "tok \<noteq> []" "CHR ''_'' \<notin> set tok"
    by (simp_all add: summary_shape_def)
  have run: "length key \<le> length (takeWhile (\<lambda>c. c \<noteq> newline) name)"
  proof -
    have "takeWhile (\<lambda>c. c \<noteq> newline) name =
          key @ takeWhile (\<lambda>c. c \<noteq> newline) (''_id'' @ tok @ ''_summary.json'')"
      unfolding name using key(2) by (intro takeWhile_append2) auto
    then show ?thesis by simp
  qed
  have in_ns: "length key \<in> set ?ns" using key(1) run by (auto simp: Suc_le_eq)
  have "rx_match tail_pattern (''_id'' @ tok @ ''_summary.json'') \<noteq> None"
    using tok by (subst tail_match_iff) blast
  then obtain gs where gs: "rx_match tail_pattern (''_id'' @ tok @ ''_summary.json'') = Some gs"
    by blast
  have at_key: "?f (length key) = Some (key # gs)"
    using gs by (simp add: name)
  have others: "?f m = None" if m: "m \<in> set ?ns" "m \<noteq> length key" for m
  proof (rule ccontr)
    assume "?f m \<noteq> None"
    then have "rx_match tail_pattern (drop m name) \<noteq> None" by simp
    then obtain tok' rest where t: "CHR ''_'' \<notin> set tok'"
      and rest: "rest = ''_summary.json'' \<or> rest = ''_summary.json'' @ [newline]"
      and d: "drop m name = ''_id'' @ tok' @ rest"
      unfolding tail_match_iff by blast
    have "take m name @ drop m name = name" by (rule append_take_drop_id)
    then have "name = take m name @ ''_id'' @ tok' @ rest" by (simp only: d)
    then have "key @ ''_id'' @ tok @ ''_summary.json'' = take m name @ ''_id'' @ tok' @ rest"
      unfolding name [symmetric] .
    from shape_unique [OF this rest tok(2) t] have "take m name = key" by simp
    moreover have "m \<le> length name"
      using m(1) length_takeWhile_le [of "\<lambda>c. c \<noteq> newline" name] by auto
    ultimately have "m = length key" by (metis length_take min.absorb2)
    with m(2) show False by simp
  qed
  have "first_some ?f ?ns = Some (key # gs)"
    by (rule first_some_unique [where f = ?f, OF in_ns at_key]) (use others in blast)
  then have "rx_match SUMMARY_PATTERN name = Some (key # gs)"
    by (simp only: SUMMARY_PATTERN_def tail_pattern_def rx_match.simps(4))
  then show ?thesis by (simp add: summary_prefix_def)
qed

lemma summary_prefix_SomeD:
  assumes "summary_prefix name = Some key"
  shows "\<exists>tok. summary_shape key tok name \<or> summary_shape key tok (butlast name) \<and> last name = newline"
proof -
  let ?f = "\<lambda>n. map_option (Cons (take n name)) (rx_match tail_pattern (drop n name))"
  let ?ns = "rev [1..<Suc (length (takeWhile (\<lambda>c. c \<noteq> newline) name))]"
  have eq: "rx_match SUMMARY_PATTERN name = first_some ?f ?ns"
    by (simp only: SUMMARY_PATTERN_def tail_pattern_def rx_match.simps(4))
  from assms obtain r where r: "rx_match SUMMARY_PATTERN name = Some r"
    by (cases "rx_match SUMMARY_PATTERN name") (simp_all add: summary_prefix_def)
  with assms obtain gs where "r = key # gs"
    by (cases r) (simp_all add: summary_prefix_def)
  with r eq have fs: "first_some ?f ?ns = Some (key # gs)" by (simp only:)
  from first_some_SomeD [OF fs] obtain n where n: "n \<in> set ?ns" and fn: "?f n = Some (key # gs)"
    by (elim bexE)
  from fn have key: "key = take n name" and t: "rx_match tail_pattern (drop n name) \<noteq> None"
    by auto
  from n have n1: "1 \<le> n" and n2: "n \<le> length (takeWhile (\<lambda>c. c \<noteq> newline) name)"
    by auto
  have len: "n \<le> length name"
    using n2 length_takeWhile_le [of "\<lambda>c. c \<noteq> newline" name] by simp
  have k1: "key \<noteq> []" using n1 len key by auto
  have k2: "newline \<notin> set key" using take_takeWhile_set [OF n2] key by auto
  from t obtain tok where tok: "tok \<noteq> []" "CHR ''_'' \<notin> set tok"
    and d: "drop n name = ''_id'' @ tok @ ''_summary.json'' \<or>
            drop n name = ''_id'' @ tok @ ''_summary.json'' @ [newline]"
    unfolding tail_match_iff by blast
  have split: "key @ drop n name = name" by (simp add: key)
  from d show ?thesis
  proof
    assume d1: "drop n name = ''_id'' @ tok @ ''_summary.json''"
    have "name = key @ ''_id'' @ tok @ ''_summary.json''"
      using split [unfolded d1] by (rule sym)
    then have "summary_shape key tok name"
      unfolding summary_shape_def using k1 k2 tok by simp
    then show ?thesis by blast
  next
    assume d2: "drop n name = ''_id'' @ tok @ ''_summary.json'' @ [newline]"
    have nm: "name = (key @ ''_id'' @ tok @ ''_summary.json'') @ [newline]"
      using split [unfolded d2] by simp
    have "butlast name = key @ ''_id'' @ tok @ ''_summary.json''"
      unfolding nm by (rule butlast_snoc)
    moreover have "last name = newline" unfolding nm by (rule last_snoc)
    ultimately have "summary_shape key tok (butlast name) \<and> last name = newline"
      unfolding summary_shape_def using k1 k2 tok by simp
    then show ?thesis by blast
  qed
qed

lemma grouped_iff:
  "(glob_json name \<and> summary_prefix name = Some key) = (\<exists>tok. summary_shape key tok name)"
proof
  assume a: "glob_json name \<and> summary_prefix name = Some key"
  then obtain tok where
    "summary_shape key tok name \<or> summary_shape key tok (butlast name) \<and> last name = newline"
    using summary_prefix_SomeD by blast
  moreover have "last name \<noteq> newline"
  proof -
    from a obtain zs where "name = zs @ ''.json''" by (auto simp: glob_json_def suffix_def)
    then have "last name = CHR ''n''" by simp
    then show ?thesis by (simp add: newline_def)
  qed
  ultimately show "\<exists>tok. summary_shape key tok name" by blast
next
  assume "\<exists>tok. summary_shape key tok name"
  then obtain tok where s: "summary_shape key tok name" ..
  then have "summary_prefix name = Some key" by (rule summary_prefix_shape)
  moreover have "glob_json name"
  proof -
    from s have "name = (key @ ''_id'' @ tok @ ''_summary'') @ ''.json''"
      by (simp add: summary_shape_def)
    then show ?thesis unfolding glob_json_def by (rule suffixI)
  qed
  ultimately show "glob_json name \<and> summary_prefix name = Some key" by simp
qed

lemma groups_fold:
  "map_of (foldl (\<lambda>groups name.
              case summary_prefix name of
                Some pre \<Rightarrow> dict_set groups pre (dd_get groups pre [] @ [dir @ [name]])
              | None \<Rightarrow> groups) g ns) k =
   (if filter (\<lambda>n. summary_prefix n = Some k) ns = [] then map_of g k
    else Some (dd_get g k [] @ map (\<lambda>n. dir @ [n]) (filter (\<lambda>n. summary_prefix n = Some k) ns)))"
proof (induction ns arbitrary: g)
  case Nil
  show ?case by simp
next
  case (Cons a ns)
  show ?case
  proof (cases "summary_prefix a")
    case None
    then show ?thesis by (simp add: Cons.IH)
  next
    case (Some pre)
    then show ?thesis
      by (cases "pre = k") (simp_all add: Cons.IH map_of_dict_set dd_get_dict_set dd_get_def)
  qed
qed

lemma groups_distinct:
  "distinct (map fst g) \<Longrightarrow>
   distinct (map fst (foldl (\<lambda>groups name.
              case summary_prefix name of
                Some pre \<Rightarrow> dict_set groups pre (dd_get groups pre [] @ [dir @ [name]])
              | None \<Rightarrow> groups) g ns))"
  by (induction ns arbitrary: g) (auto simp: distinct_dict_set split: option.splits)

lemma collect_groups_lookup:
  "map_of (collect_groups dir names) k =
   (if filter (\<lambda>n. summary_prefix n = Some k) (filter glob_json names) = [] then None
    else Some (map (\<lambda>n. dir @ [n]) (filter (\<lambda>n. summary_prefix n = Some k) (filter glob_json names))))"
  unfolding collect_groups_def groups_fold by (simp add: dd_get_def)

lemma collect_groups_member:
  "((pre, ps) \<in> set (collect_groups dir names) \<and> dir @ [name] \<in> set ps) =
   (map_of (collect_groups dir names) pre = Some ps \<and> name \<in> set names \<and>
    (\<exists>tok. summary_shape pre tok name))"
proof -
  have "distinct (map fst (collect_groups dir names))"
    unfolding collect_groups_def by (rule groups_distinct) simp
  then have m: "((pre, ps) \<in> set (collect_groups dir names)) =
      (map_of (collect_groups dir names) pre = Some ps)"
    by simp
  have "(dir @ [name] \<in> set ps) = (name \<in> set names \<and> (\<exists>tok. summary_shape pre tok name))"
    if "map_of (collect_groups dir names) pre = Some ps"
  proof -
    from that have "ps = map (\<lambda>n. dir @ [n])
        (filter (\<lambda>n. summary_prefix n = Some pre) (filter glob_json names))"
      by (simp add: collect_groups_lookup split: if_splits)
    then have "(dir @ [name] \<in> set ps) =
        (name \<in> set names \<and> glob_json name \<and> summary_prefix name = Some pre)"
      by auto
    then show ?thesis by (simp only: grouped_iff conj_assoc)
  qed
  with m show ?thesis by blast
qed

lemma collect_groups_shape:
  assumes "name \<in> set names" and "summary_shape key tok name"
  shows "\<exists>ps. map_of (collect_groups dir names) key = Some ps \<and> dir @ [name] \<in> set ps"
proof -
  from assms(2) have "glob_json name \<and> summary_prefix name = Some key"
    unfolding grouped_iff by blast
  with assms(1) have
    "name \<in> set (filter (\<lambda>n. summary_prefix n = Some key) (filter glob_json names))"
    by simp
  then show ?thesis
    by (auto simp: collect_groups_lookup filter_empty_conv)
qed

text \<open>
  Claim C4, amended. A name of the directory is placed in a cohort if and only if it is
  \<open><key>_id<token>_summary.json\<close> with a key that is not empty and has no line feed and
  a token that is not empty and has no underscore; it is then in the cohort of exactly
  that key, the name without its \<open>_id<token>_summary.json\<close>, and in no other.
\<close>

theorem grouping_correct:
  "((\<exists>pre ps. (pre, ps) \<in> set (collect_groups data_dir names) \<and> data_dir @ [name] \<in> set ps) =
      (name \<in> set names \<and> (\<exists>key token. summary_shape key token name))) \<and>
   (\<forall>pre ps. (pre, ps) \<in> set (collect_groups data_dir names) \<and> data_dir @ [name] \<in> set ps \<longrightarrow>
      (\<exists>token. summary_shape pre token name)) \<and>
   (\<forall>key token. name \<in> set names \<and> summary_shape key token name \<longrightarrow>
      (\<exists>ps. map_of (collect_groups data_dir names) key = Some ps \<and> data_dir @ [name] \<in> set ps))"
proof (intro conjI)
  show "(\<exists>pre ps. (pre, ps) \<in> set (collect_groups data_dir names) \<and> data_dir @ [name] \<in> set ps) =
      (name \<in> set names \<and> (\<exists>key token. summary_shape key token name))"
  proof
    assume "\<exists>pre ps. (pre, ps) \<in> set (collect_groups data_dir names) \<and> data_dir @ [name] \<in> set ps"
    then show "name \<in> set names \<and> (\<exists>key token. summary_shape key token name)"
      unfolding collect_groups_member by blast
  next
    assume a: "name \<in> set names \<and> (\<exists>key token. summary_shape key token name)"
    then obtain key token where s: "summary_shape key token name" by blast
    from a have n: "name \<in> set names" by simp
    from collect_groups_shape [OF n s, of data_dir] obtain ps where
      ps: "map_of (collect_groups data_dir names) key = Some ps \<and> data_dir @ [name] \<in> set ps"
      by blast
    with n s have "(key, ps) \<in> set (collect_groups data_dir names) \<and> data_dir @ [name] \<in> set ps"
      unfolding collect_groups_member by blast
    then show "\<exists>pre ps. (pre, ps) \<in> set (collect_groups data_dir names) \<and> data_dir @ [name] \<in> set ps"
      by blast
  qed
  show "\<forall>pre ps. (pre, ps) \<in> set (collect_groups data_dir names) \<and> data_dir @ [name] \<in> set ps \<longrightarrow>
      (\<exists>token. summary_shape pre token name)"
    unfolding collect_groups_member by blast
  show "\<forall>key token. name \<in> set names \<and> summary_shape key token name \<longrightarrow>
      (\<exists>ps. map_of (collect_groups data_dir names) key = Some ps \<and> data_dir @ [name] \<in> set ps)"
    using collect_groups_shape by blast
qed

theorem grouping_correct_witness:
  "''m_id2_summary.json'' \<in> set listing \<and> summary_shape ''m'' ''2'' ''m_id2_summary.json'' \<and>
   collect_groups [''data''] listing =
     [(''m'', [[''data'', ''m_id1_summary.json''], [''data'', ''m_id2_summary.json'']]),
      (''k'', [[''data'', ''k_id3_summary.json'']])] \<and>
   (\<exists>ps. map_of (collect_groups [''data''] listing) ''m'' = Some ps \<and>
      [''data''] @ [''m_id2_summary.json''] \<in> set ps)"
proof -
  have n: "''m_id2_summary.json'' \<in> set listing" by code_simp
  have s: "summary_shape ''m'' ''2'' ''m_id2_summary.json''" by code_simp
  have c: "collect_groups [''data''] listing =
     [(''m'', [[''data'', ''m_id1_summary.json''], [''data'', ''m_id2_summary.json'']]),
      (''k'', [[''data'', ''k_id3_summary.json'']])]" by code_simp
  note t = grouping_correct [of "[''data'']" listing "''m_id2_summary.json''",
      THEN conjunct2, THEN conjunct2, rule_format, OF conjI [OF n s]]
  from n s c t show ?thesis by (intro conjI)
qed

theorem grouping_counterexample:
  "claimed_shape (''a'' @ [newline] @ ''b'') ''1'' (''a'' @ [newline] @ ''b_id1_summary.json'') \<and>
   collect_groups [''data''] [''a'' @ [newline] @ ''b_id1_summary.json''] = [] \<and>
   claimed_shape [] ''1'' ''_id1_summary.json'' \<and>
   collect_groups [''data''] [''_id1_summary.json''] = []"
  by (intro conjI; code_simp)

section \<open>The chart loader keeps an existing cost\<close>

lemma collect_metrics_lookup:
  "collect_metrics data m = Inr base \<Longrightarrow> distinct (map fst data) \<Longrightarrow>
   map_of data k = Some v \<Longrightarrow> k \<notin> set SKIP_KEYS \<Longrightarrow> is_int_or_float v \<Longrightarrow>
   \<exists>x. float_py v = Inr x \<and> map_of base k = Some x"
proof (induction data m rule: collect_metrics.induct)
  case (1 metrics)
  then show ?case by simp
next
  case (2 key "value" items metrics)
  have keep: "map_of base k = map_of m' k"
    if "collect_metrics items m' = Inr base" "k \<notin> fst ` set items" for m'
    using that
  proof (induction items m' rule: collect_metrics.induct)
    case (1 metrics)
    then show ?case by simp
  next
    case (2 key "value" items metrics)
    then show ?case
      by (auto simp: map_of_dict_set split: if_splits sum.splits)
  qed
  show ?case
  proof (cases "key = k")
    case True
    with "2.prems" obtain x where x: "float_py v = Inr x"
      and rest: "collect_metrics items (dict_set metrics k x) = Inr base"
      by (auto split: sum.splits)
    from True "2.prems"(2) have "k \<notin> fst ` set items" by auto
    from keep [OF rest this] x show ?thesis by (simp add: map_of_dict_set)
  next
    case False
    with "2.prems" "2.IH" show ?thesis
      by (auto split: if_splits sum.splits)
  qed
qed

lemma map_of_setdefault:
  "map_of (setdefault d k v) k' =
     (if k' = k \<and> map_of d k = None then Some v else map_of d k')"
  by (auto simp: setdefault_def dict_has_def map_add_def split: option.splits)

text \<open>
  Claim C10. Cost estimation changes the metrics of a summary in one way only: when the
  metrics read from the record have no \<open>avg_cost_usd\<close>, the computed cost is added under
  that name. When they have one they are returned as they are, so a numeric
  \<open>avg_cost_usd\<close> of the record keeps its value; every other metric is what was read from
  the record.
\<close>

theorem existing_cost_kept:
  assumes "summary_metrics model (dict_of members) = Inr metrics"
  shows "\<exists>base. collect_metrics (dict_of members) [] = Inr base \<and>
    (dict_has base ''avg_cost_usd'' \<longrightarrow> metrics = base) \<and>
    (\<forall>k. k \<noteq> ''avg_cost_usd'' \<longrightarrow> map_of metrics k = map_of base k) \<and>
    (\<forall>v. map_of (dict_of members) ''avg_cost_usd'' = Some v \<and> is_int_or_float v \<longrightarrow>
       (\<exists>x. float_py v = Inr x \<and> map_of metrics ''avg_cost_usd'' = Some x)) \<and>
    (\<not> dict_has base ''avg_cost_usd'' \<longrightarrow>
       dict_has metrics ''avg_cost_usd'' =
         (dict_has base ''avg_input_tokens'' \<or> dict_has base ''avg_output_tokens''))"
proof -
  from assms obtain base where base: "collect_metrics (dict_of members) [] = Inr base"
    by (auto simp: summary_metrics_def split: sum.splits)
  have some: "\<exists>cost. metrics = setdefault base ''avg_cost_usd'' cost"
    if "dict_has base ''avg_input_tokens'' \<or> dict_has base ''avg_output_tokens''"
    using assms base that by (auto simp: summary_metrics_def split: sum.splits)
  have none: "metrics = base"
    if "\<not> (dict_has base ''avg_input_tokens'' \<or> dict_has base ''avg_output_tokens'')"
    using assms base that by (auto simp: summary_metrics_def)
  have cases: "metrics = base \<or> (\<exists>cost. metrics = setdefault base ''avg_cost_usd'' cost)"
    using some none by blast
  have 1: "dict_has base ''avg_cost_usd'' \<longrightarrow> metrics = base"
    using cases by (auto simp: setdefault_def)
  have 2: "\<forall>k. k \<noteq> ''avg_cost_usd'' \<longrightarrow> map_of metrics k = map_of base k"
    using cases by (auto simp: map_of_setdefault)
  have 3: "\<forall>v. map_of (dict_of members) ''avg_cost_usd'' = Some v \<and> is_int_or_float v \<longrightarrow>
       (\<exists>x. float_py v = Inr x \<and> map_of metrics ''avg_cost_usd'' = Some x)"
  proof (intro allI impI)
    fix v
    assume v: "map_of (dict_of members) ''avg_cost_usd'' = Some v \<and> is_int_or_float v"
    have "''avg_cost_usd'' \<notin> set SKIP_KEYS" by (simp add: SKIP_KEYS_def)
    with collect_metrics_lookup [OF base distinct_dict_of, of "''avg_cost_usd''" v] v
    obtain x where x: "float_py v = Inr x" "map_of base ''avg_cost_usd'' = Some x" by blast
    then have "dict_has base ''avg_cost_usd''" by (simp add: dict_has_def)
    with 1 x show "\<exists>x. float_py v = Inr x \<and> map_of metrics ''avg_cost_usd'' = Some x" by simp
  qed
  have 4: "\<not> dict_has base ''avg_cost_usd'' \<longrightarrow>
       dict_has metrics ''avg_cost_usd'' =
         (dict_has base ''avg_input_tokens'' \<or> dict_has base ''avg_output_tokens'')"
  proof (cases "dict_has base ''avg_input_tokens'' \<or> dict_has base ''avg_output_tokens''")
    case True
    from some [OF True] obtain cost where "metrics = setdefault base ''avg_cost_usd'' cost" ..
    with True show ?thesis by (simp add: dict_has_def map_of_setdefault)
  next
    case False
    from none [OF False] False show ?thesis by simp
  qed
  from base 1 2 3 4 show ?thesis by blast
qed

theorem existing_cost_kept_witness:
  "summary_metrics ''m'' (dict_of costed_summary) =
     Inr [(''avg_input_tokens'', Fin 1000), (''avg_output_tokens'', Fin 500),
          (''avg_cost_usd'', Fin (1 / 2))] \<and>
   map_of (dict_of costed_summary) ''avg_cost_usd'' = Some (JNum (Fin (1 / 2))) \<and>
   is_int_or_float (JNum (Fin (1 / 2))) \<and>
   (\<exists>x. float_py (JNum (Fin (1 / 2))) = Inr x \<and>
      map_of [(''avg_input_tokens'', Fin 1000), (''avg_output_tokens'', Fin 500),
              (''avg_cost_usd'', Fin (1 / 2))] ''avg_cost_usd'' = Some x) \<and>
   summary_metrics ''m'' (dict_of plain_summary) =
     Inr [(''avg_input_tokens'', Fin 1000), (''avg_output_tokens'', Fin 500),
          (''avg_cost_usd'', Fin (3 / 500))]"
proof -
  have a: "summary_metrics ''m'' (dict_of costed_summary) =
     Inr [(''avg_input_tokens'', Fin 1000), (''avg_output_tokens'', Fin 500),
          (''avg_cost_usd'', Fin (1 / 2))]" by code_simp
  have b: "map_of (dict_of costed_summary) ''avg_cost_usd'' = Some (JNum (Fin (1 / 2)))"
    by code_simp
  have c: "is_int_or_float (JNum (Fin (1 / 2)))" by simp
  have d: "summary_metrics ''m'' (dict_of plain_summary) =
     Inr [(''avg_input_tokens'', Fin 1000), (''avg_output_tokens'', Fin 500),
          (''avg_cost_usd'', Fin (3 / 500))]" by code_simp
  from existing_cost_kept [OF a] obtain base where
    t: "\<forall>v. map_of (dict_of costed_summary) ''avg_cost_usd'' = Some v \<and> is_int_or_float v \<longrightarrow>
       (\<exists>x. float_py v = Inr x \<and>
          map_of [(''avg_input_tokens'', Fin 1000), (''avg_output_tokens'', Fin 500),
                  (''avg_cost_usd'', Fin (1 / 2))] ''avg_cost_usd'' = Some x)"
    by (elim exE conjE)
  note e = t [rule_format, OF conjI [OF b c]]
  from a b c e d show ?thesis by (intro conjI)
qed

section \<open>The warnings as strings\<close>

text \<open>The strings of the example cohort.\<close>

lemma average_group_output_example:
  "average_group_output cohort_fs [run3, run1, run2] =
     Inr ([(''avg_input_tokens'', JNum (Fin 150)), (''status'', JStr ''ok''),
           (''latency_ms'', JNum (Fin 15)), (''number of runs'', JInt 3)],
          [''Inconsistent non-numeric value for '' @ quote @ ''status'' @ quote @
             '' in m_id2_summary.json; using first encountered.'',
           ''Key '' @ quote @ ''latency_ms'' @ quote @
             '' appears in 2/3 files; averaged over available values.'',
           ''Key '' @ quote @ ''number of runs'' @ quote @
             '' appears in 1/3 files; averaged over available values.''])"
  by code_simp

end
